theory Spec2Isabelle
  imports Main "HOL-Library.Word"
begin

unbundle bit_operations_syntax

section \<open>Data model of \<^verbatim>\<open>stringzilla.h\<close>\<close>

text \<open>
  Bytes are \<open>8 word\<close>, the SWAR registers \<open>64 word\<close>, an anomaly
  (\<^verbatim>\<open>strzl_anomaly_t = uint32_t\<close>) is \<open>32 word\<close>. Addresses, lengths and indices
  (\<^verbatim>\<open>size_t\<close>, pointers) are \<open>nat\<close>: a live object never wraps the address space.

  A \<^verbatim>\<open>strzl_haystack_t {ptr, len}\<close> is the address \<open>hay_ptr\<close> (only its
  alignment is ever inspected) together with the \<open>len\<close> bytes that live there,
  \<open>hay_bytes\<close>; \<open>len\<close> is the length of that list. A \<^verbatim>\<open>strzl_needle_t\<close> is its
  bytes and the \<open>anomaly_offset\<close> field.

  Every read of memory is guarded: a read outside the span yields \<open>None\<close>, and
  \<open>None\<close> propagates to the result of the operation that performed it.
\<close>

type_synonym byte = "8 word"
type_synonym u32 = "32 word"
type_synonym u64 = "64 word"

record strzl_haystack_t =
  hay_ptr :: nat
  hay_bytes :: "byte list"

record strzl_needle_t =
  ndl_bytes :: "byte list"
  anomaly_offset :: nat

definition peek :: "byte list \<Rightarrow> nat \<Rightarrow> byte option" where
  "peek m i = (if i < length m then Some (m ! i) else None)"

text \<open>Little-endian assembly of a machine word from bytes (x86-64, AArch64).\<close>

fun le_u64 :: "byte list \<Rightarrow> u64" where
  "le_u64 [] = 0"
| "le_u64 (b # bs) = ucast b OR push_bit 8 (le_u64 bs)"

fun le_u32 :: "byte list \<Rightarrow> u32" where
  "le_u32 [] = 0"
| "le_u32 (b # bs) = ucast b OR push_bit 8 (le_u32 bs)"

definition load_u64 :: "byte list \<Rightarrow> nat \<Rightarrow> u64 option" where
  "load_u64 m i = (if i + 8 \<le> length m then Some (le_u64 (take 8 (drop i m))) else None)"

definition load_u32 :: "byte list \<Rightarrow> nat \<Rightarrow> u32 option" where
  "load_u32 m i = (if i + 4 \<le> length m then Some (le_u32 (take 4 (drop i m))) else None)"

text \<open>
  Conversion of a plain \<^verbatim>\<open>char\<close> to \<^verbatim>\<open>uint64_t\<close>. Whether plain \<^verbatim>\<open>char\<close> is signed is
  fixed by the ABI (signed on x86-64 and Apple arm64, unsigned on AArch64 Linux), so
  it is the parameter \<open>sc\<close> of every kernel: a signed \<^verbatim>\<open>char\<close> is sign-extended.
\<close>

definition char_to_u64 :: "bool \<Rightarrow> byte \<Rightarrow> u64" where
  "char_to_u64 sc c = (if sc then scast c else ucast c)"

text \<open>\<^verbatim>\<open>__builtin_ctzll\<close> (only ever called on a non-zero word) and \<^verbatim>\<open>__builtin_popcountll\<close>.\<close>

definition ctzll :: "u64 \<Rightarrow> nat" where
  "ctzll w = length (takeWhile (\<lambda>i. \<not> bit w i) [0..<64])"

definition popcountll :: "u64 \<Rightarrow> nat" where
  "popcountll w = length (filter (bit w) [0..<64])"

text \<open>\<^verbatim>\<open>strzl_equal(a, b, len)\<close>: the two cursors are indices into their buffers.\<close>

fun strzl_equal :: "byte list \<Rightarrow> nat \<Rightarrow> byte list \<Rightarrow> nat \<Rightarrow> nat \<Rightarrow> bool option" where
  "strzl_equal a ai b bi 0 = Some True"
| "strzl_equal a ai b bi (Suc len) =
     (case peek a ai of None \<Rightarrow> None
      | Some x \<Rightarrow>
        (case peek b bi of None \<Rightarrow> None
         | Some y \<Rightarrow> if x = y then strzl_equal a (ai + 1) b (bi + 1) len else Some False))"

section \<open>Single-byte kernels\<close>

definition broadcast_char :: "bool \<Rightarrow> byte \<Rightarrow> u64" where
  "broadcast_char sc n =
     (let nnnnnnnn = char_to_u64 sc n;
          nnnnnnnn = nnnnnnnn OR push_bit 8 nnnnnnnn;
          nnnnnnnn = nnnnnnnn OR push_bit 16 nnnnnnnn;
          nnnnnnnn = nnnnnnnn OR push_bit 32 nnnnnnnn
      in nnnnnnnn)"

definition char_indicators :: "u64 \<Rightarrow> u64 \<Rightarrow> u64" where
  "char_indicators h_slice nnnnnnnn =
     (let mi = NOT (h_slice XOR nnnnnnnn);
          mi = mi AND drop_bit 1 mi;
          mi = mi AND drop_bit 2 mi;
          mi = mi AND drop_bit 4 mi
      in mi AND 0x0101010101010101)"

subsection \<open>\<^verbatim>\<open>strzl_naive_count_char\<close>\<close>

function count_char_tail :: "byte list \<Rightarrow> byte \<Rightarrow> nat \<Rightarrow> nat \<Rightarrow> nat option" where
  "count_char_tail m n i result =
     (if i < length m then
        (case peek m i of None \<Rightarrow> None
         | Some c \<Rightarrow> count_char_tail m n (i + 1) (result + (if c = n then 1 else 0)))
      else Some result)"
  by pat_completeness auto
termination
  by (relation "measure (\<lambda>(m, n, i, result). length m - i)") auto

function count_char_swar :: "byte list \<Rightarrow> byte \<Rightarrow> u64 \<Rightarrow> nat \<Rightarrow> nat \<Rightarrow> nat option" where
  "count_char_swar m n nnnnnnnn i result =
     (if i + 8 \<le> length m then
        (case load_u64 m i of None \<Rightarrow> None
         | Some h_slice \<Rightarrow>
           count_char_swar m n nnnnnnnn (i + 8)
             (result + popcountll (char_indicators h_slice nnnnnnnn)))
      else count_char_tail m n i result)"
  by pat_completeness auto
termination
  by (relation "measure (\<lambda>(m, n, nnnnnnnn, i, result). length m - i)") auto

function count_char_head :: "bool \<Rightarrow> nat \<Rightarrow> byte list \<Rightarrow> byte \<Rightarrow> nat \<Rightarrow> nat \<Rightarrow> nat option" where
  "count_char_head sc p m n i result =
     (if (p + i) mod 8 \<noteq> 0 \<and> i < length m then
        (case peek m i of None \<Rightarrow> None
         | Some c \<Rightarrow> count_char_head sc p m n (i + 1) (result + (if c = n then 1 else 0)))
      else count_char_swar m n (broadcast_char sc n) i result)"
  by pat_completeness auto
termination
  by (relation "measure (\<lambda>(sc, p, m, n, i, result). length m - i)") auto

definition strzl_naive_count_char :: "bool \<Rightarrow> strzl_haystack_t \<Rightarrow> byte \<Rightarrow> nat option" where
  "strzl_naive_count_char sc h n = count_char_head sc (hay_ptr h) (hay_bytes h) n 0 0"

subsection \<open>\<^verbatim>\<open>strzl_naive_find_char\<close>\<close>

function find_char_tail :: "byte list \<Rightarrow> byte \<Rightarrow> nat \<Rightarrow> nat option" where
  "find_char_tail m n i =
     (if i < length m then
        (case peek m i of None \<Rightarrow> None
         | Some c \<Rightarrow> if c = n then Some i else find_char_tail m n (i + 1))
      else Some (length m))"
  by pat_completeness auto
termination
  by (relation "measure (\<lambda>(m, n, i). length m - i)") auto

function find_char_swar :: "byte list \<Rightarrow> byte \<Rightarrow> u64 \<Rightarrow> nat \<Rightarrow> nat option" where
  "find_char_swar m n nnnnnnnn i =
     (if i + 8 \<le> length m then
        (case load_u64 m i of None \<Rightarrow> None
         | Some h_slice \<Rightarrow>
           if char_indicators h_slice nnnnnnnn \<noteq> 0
           then Some (i + ctzll (char_indicators h_slice nnnnnnnn) div 8)
           else find_char_swar m n nnnnnnnn (i + 8))
      else find_char_tail m n i)"
  by pat_completeness auto
termination
  by (relation "measure (\<lambda>(m, n, nnnnnnnn, i). length m - i)") auto

function find_char_head :: "bool \<Rightarrow> nat \<Rightarrow> byte list \<Rightarrow> byte \<Rightarrow> nat \<Rightarrow> nat option" where
  "find_char_head sc p m n i =
     (if (p + i) mod 8 \<noteq> 0 \<and> i < length m then
        (case peek m i of None \<Rightarrow> None
         | Some c \<Rightarrow> if c = n then Some i else find_char_head sc p m n (i + 1))
      else find_char_swar m n (broadcast_char sc n) i)"
  by pat_completeness auto
termination
  by (relation "measure (\<lambda>(sc, p, m, n, i). length m - i)") auto

definition strzl_naive_find_char :: "bool \<Rightarrow> strzl_haystack_t \<Rightarrow> byte \<Rightarrow> nat option" where
  "strzl_naive_find_char sc h n = find_char_head sc (hay_ptr h) (hay_bytes h) n 0"

section \<open>Multi-byte kernels\<close>

text \<open>
  \<^verbatim>\<open>h_ptr[j] == n[j]\<close> on two buffers, and C's short-circuit \<^verbatim>\<open>&&\<close>: the right operand
  is read only when the left one holds.
\<close>

definition char_eq :: "byte list \<Rightarrow> nat \<Rightarrow> byte list \<Rightarrow> nat \<Rightarrow> bool option" where
  "char_eq m i n j =
     (case peek m i of None \<Rightarrow> None
      | Some x \<Rightarrow> (case peek n j of None \<Rightarrow> None | Some y \<Rightarrow> Some (x = y)))"

definition and_also :: "bool option \<Rightarrow> bool option \<Rightarrow> bool option" where
  "and_also a b = (case a of None \<Rightarrow> None | Some t \<Rightarrow> if t then b else Some False)"

subsection \<open>\<^verbatim>\<open>strzl_naive_find_2chars\<close>\<close>

definition template_2chars :: "bool \<Rightarrow> byte \<Rightarrow> byte \<Rightarrow> u64" where
  "template_2chars sc n0 n1 =
     (let nnnn = push_bit 0 (char_to_u64 sc n0) OR push_bit 8 (char_to_u64 sc n1);
          nnnn = nnnn OR push_bit 16 nnnn;
          nnnn = nnnn OR push_bit 32 nnnn
      in nnnn)"

definition fold16 :: "u64 \<Rightarrow> u64" where
  "fold16 x =
     (let x = x AND drop_bit 1 x;
          x = x AND drop_bit 2 x;
          x = x AND drop_bit 4 x;
          x = x AND drop_bit 8 x
      in x)"

definition even_indicators :: "u64 \<Rightarrow> u64 \<Rightarrow> u64" where
  "even_indicators h_slice nnnn = fold16 (NOT (h_slice XOR nnnn)) AND 0x0001000100010001"

definition odd_indicators :: "u64 \<Rightarrow> u64 \<Rightarrow> u64" where
  "odd_indicators h_slice nnnn = fold16 (NOT (push_bit 8 h_slice XOR nnnn)) AND 0x0001000100010000"

function find_2chars_tail :: "byte list \<Rightarrow> byte list \<Rightarrow> nat \<Rightarrow> nat option" where
  "find_2chars_tail m n i =
     (if i + 2 \<le> length m then
        (case and_also (char_eq m i n 0) (char_eq m (i + 1) n 1) of None \<Rightarrow> None
         | Some t \<Rightarrow> if t then Some i else find_2chars_tail m n (i + 1))
      else Some (length m))"
  by pat_completeness auto
termination
  by (relation "measure (\<lambda>(m, n, i). length m - i)") auto

function find_2chars_swar :: "byte list \<Rightarrow> byte list \<Rightarrow> u64 \<Rightarrow> nat \<Rightarrow> nat option" where
  "find_2chars_swar m n nnnn i =
     (if i + 8 \<le> length m then
        (case load_u64 m i of None \<Rightarrow> None
         | Some h_slice \<Rightarrow>
           if even_indicators h_slice nnnn + odd_indicators h_slice nnnn \<noteq> 0
           then Some (i + ctzll (even_indicators h_slice nnnn
                                   OR drop_bit 8 (odd_indicators h_slice nnnn)) div 8)
           else find_2chars_swar m n nnnn (i + 7))
      else find_2chars_tail m n i)"
  by pat_completeness auto
termination
  by (relation "measure (\<lambda>(m, n, nnnn, i). length m - i)") auto

definition strzl_naive_find_2chars :: "bool \<Rightarrow> strzl_haystack_t \<Rightarrow> byte list \<Rightarrow> nat option" where
  "strzl_naive_find_2chars sc h n =
     (case peek n 0 of None \<Rightarrow> None
      | Some n0 \<Rightarrow>
        (case peek n 1 of None \<Rightarrow> None
         | Some n1 \<Rightarrow> find_2chars_swar (hay_bytes h) n (template_2chars sc n0 n1) 0))"

subsection \<open>\<^verbatim>\<open>strzl_naive_find_3chars\<close>\<close>

text \<open>
  \<^verbatim>\<open>uint64_t(n[0] << 0)\<close> promotes the \<^verbatim>\<open>char\<close> to \<^verbatim>\<open>int\<close> first; converting that
  \<^verbatim>\<open>int\<close> to \<^verbatim>\<open>uint64_t\<close> sign-extends exactly as the direct conversion does.
\<close>

definition template_3chars :: "bool \<Rightarrow> byte \<Rightarrow> byte \<Rightarrow> byte \<Rightarrow> u64" where
  "template_3chars sc n0 n1 n2 =
     (let nn = push_bit 0 (char_to_u64 sc n0) OR push_bit 8 (char_to_u64 sc n1)
                 OR push_bit 16 (char_to_u64 sc n2);
          nn = nn OR push_bit 24 nn;
          nn = push_bit 16 nn
      in nn)"

definition fold24 :: "u64 \<Rightarrow> u64" where
  "fold24 x =
     (let x = x AND drop_bit 1 x;
          x = x AND drop_bit 2 x;
          x = x AND drop_bit 4 x
      in drop_bit 16 x AND drop_bit 8 x AND drop_bit 0 x AND 0x0000010000010000)"

definition indicators_3chars :: "u64 \<Rightarrow> u64 \<Rightarrow> u64" where
  "indicators_3chars h_slice nn =
     (let first_indicators = fold24 (NOT (h_slice XOR nn));
          second_indicators = fold24 (NOT (push_bit 8 h_slice XOR nn));
          third_indicators = fold24 (NOT (push_bit 16 h_slice XOR nn))
      in first_indicators OR drop_bit 8 second_indicators OR drop_bit 16 third_indicators)"

function find_3chars_tail :: "byte list \<Rightarrow> byte list \<Rightarrow> nat \<Rightarrow> nat option" where
  "find_3chars_tail m n i =
     (if i + 3 \<le> length m then
        (case and_also (and_also (char_eq m i n 0) (char_eq m (i + 1) n 1))
                       (char_eq m (i + 2) n 2) of None \<Rightarrow> None
         | Some t \<Rightarrow> if t then Some i else find_3chars_tail m n (i + 1))
      else Some (length m))"
  by pat_completeness auto
termination
  by (relation "measure (\<lambda>(m, n, i). length m - i)") auto

function find_3chars_swar :: "byte list \<Rightarrow> byte list \<Rightarrow> u64 \<Rightarrow> nat \<Rightarrow> nat option" where
  "find_3chars_swar m n nn i =
     (if i + 8 \<le> length m then
        (case load_u64 m i of None \<Rightarrow> None
         | Some h_slice \<Rightarrow>
           if indicators_3chars h_slice nn \<noteq> 0
           then Some (i + ctzll (indicators_3chars h_slice nn) div 8)
           else find_3chars_swar m n nn (i + 6))
      else find_3chars_tail m n i)"
  by pat_completeness auto
termination
  by (relation "measure (\<lambda>(m, n, nn, i). length m - i)") auto

definition strzl_naive_find_3chars :: "bool \<Rightarrow> strzl_haystack_t \<Rightarrow> byte list \<Rightarrow> nat option" where
  "strzl_naive_find_3chars sc h n =
     (case peek n 0 of None \<Rightarrow> None
      | Some n0 \<Rightarrow>
        (case peek n 1 of None \<Rightarrow> None
         | Some n1 \<Rightarrow>
           (case peek n 2 of None \<Rightarrow> None
            | Some n2 \<Rightarrow> find_3chars_swar (hay_bytes h) n (template_3chars sc n0 n1 n2) 0)))"

subsection \<open>\<^verbatim>\<open>strzl_naive_find_4chars\<close>\<close>

definition template_4chars :: "bool \<Rightarrow> byte \<Rightarrow> byte \<Rightarrow> byte \<Rightarrow> byte \<Rightarrow> u64" where
  "template_4chars sc n0 n1 n2 n3 =
     (let nn = push_bit 0 (char_to_u64 sc n0) OR push_bit 8 (char_to_u64 sc n1)
                 OR push_bit 16 (char_to_u64 sc n2) OR push_bit 24 (char_to_u64 sc n3);
          nn = nn OR push_bit 32 nn
      in nn)"

definition lookup :: "byte list" where
  "lookup = (replicate 16 0)[2 := 1, 6 := 1, 10 := 1, 14 := 1, 4 := 2, 12 := 2, 8 := 3]"

definition fold32 :: "u64 \<Rightarrow> u64" where
  "fold32 x =
     (let x = x AND drop_bit 1 x;
          x = x AND drop_bit 2 x;
          x = x AND drop_bit 4 x;
          x = x AND drop_bit 8 x;
          x = x AND drop_bit 16 x
      in x AND 0x0000000100000001)"

definition h01_indicators :: "u64 \<Rightarrow> u64 \<Rightarrow> u64" where
  "h01_indicators h_slice nn =
     (let h01 = (h_slice AND 0x00000000FFFFFFFF) OR push_bit 24 (h_slice AND 0x000000FFFFFFFF00)
      in fold32 (NOT (h01 XOR nn)))"

definition h23_indicators :: "u64 \<Rightarrow> u64 \<Rightarrow> u64" where
  "h23_indicators h_slice nn =
     (let h23 = drop_bit 16 (h_slice AND 0x0000FFFFFFFF0000)
                  OR push_bit 8 (h_slice AND 0x00FFFFFFFF000000)
      in fold32 (NOT (h23 XOR nn)))"

text \<open>The \<^verbatim>\<open>uint8_t match_indicators\<close> that indexes the table.\<close>

definition match_indicators_4chars :: "u64 \<Rightarrow> u64 \<Rightarrow> byte" where
  "match_indicators_4chars h01i h23i =
     ucast (drop_bit 31 h01i OR push_bit 0 h01i OR drop_bit 29 h23i OR push_bit 2 h23i)"

definition chars4_eq :: "byte list \<Rightarrow> nat \<Rightarrow> byte list \<Rightarrow> bool option" where
  "chars4_eq m i n =
     and_also (and_also (and_also (char_eq m i n 0) (char_eq m (i + 1) n 1))
                        (char_eq m (i + 2) n 2))
              (char_eq m (i + 3) n 3)"

function find_4chars_tail :: "byte list \<Rightarrow> byte list \<Rightarrow> nat \<Rightarrow> nat option" where
  "find_4chars_tail m n i =
     (if i + 4 \<le> length m then
        (case chars4_eq m i n of None \<Rightarrow> None
         | Some t \<Rightarrow> if t then Some i else find_4chars_tail m n (i + 1))
      else Some (length m))"
  by pat_completeness auto
termination
  by (relation "measure (\<lambda>(m, n, i). length m - i)") auto

function find_4chars_swar :: "byte list \<Rightarrow> byte list \<Rightarrow> u64 \<Rightarrow> nat \<Rightarrow> nat option" where
  "find_4chars_swar m n nn i =
     (if i + 8 \<le> length m then
        (case load_u64 m i of None \<Rightarrow> None
         | Some h_slice \<Rightarrow>
           if h01_indicators h_slice nn + h23_indicators h_slice nn \<noteq> 0
           then (case peek lookup (unat (match_indicators_4chars (h01_indicators h_slice nn)
                                                                   (h23_indicators h_slice nn))) of
                   None \<Rightarrow> None
                 | Some off \<Rightarrow> Some (i + unat off))
           else find_4chars_swar m n nn (i + 4))
      else find_4chars_tail m n i)"
  by pat_completeness auto
termination
  by (relation "measure (\<lambda>(m, n, nn, i). length m - i)") auto

function find_4chars_head :: "nat \<Rightarrow> byte list \<Rightarrow> byte list \<Rightarrow> nat \<Rightarrow> (nat + nat) option" where
  "find_4chars_head p m n i =
     (if (p + i) mod 8 \<noteq> 0 \<and> i + 4 \<le> length m then
        (case chars4_eq m i n of None \<Rightarrow> None
         | Some t \<Rightarrow> if t then Some (Inl i) else find_4chars_head p m n (i + 1))
      else Some (Inr i))"
  by pat_completeness auto
termination
  by (relation "measure (\<lambda>(p, m, n, i). length m - i)") auto

text \<open>
  The prologue either returns an index (\<open>Inl\<close>) or hands its cursor on (\<open>Inr\<close>); only
  then are the four needle bytes read for the template.
\<close>

definition strzl_naive_find_4chars :: "bool \<Rightarrow> strzl_haystack_t \<Rightarrow> byte list \<Rightarrow> nat option" where
  "strzl_naive_find_4chars sc h n =
     (case find_4chars_head (hay_ptr h) (hay_bytes h) n 0 of None \<Rightarrow> None
      | Some (Inl r) \<Rightarrow> Some r
      | Some (Inr i) \<Rightarrow>
        (case peek n 0 of None \<Rightarrow> None
         | Some n0 \<Rightarrow>
           (case peek n 1 of None \<Rightarrow> None
            | Some n1 \<Rightarrow>
              (case peek n 2 of None \<Rightarrow> None
               | Some n2 \<Rightarrow>
                 (case peek n 3 of None \<Rightarrow> None
                  | Some n3 \<Rightarrow>
                    find_4chars_swar (hay_bytes h) n (template_4chars sc n0 n1 n2 n3) i)))))"

section \<open>\<^verbatim>\<open>strzl_naive_find_substr\<close>\<close>

text \<open>
  The cursor \<open>i\<close> is \<^verbatim>\<open>h_ptr - h.ptr\<close>. The prefix comparison reads the haystack from
  \<^verbatim>\<open>h_ptr - n.anomaly_offset\<close> on: when \<open>i < off\<close> that pointer lies before
  \<^verbatim>\<open>h.ptr\<close>, and since \<open>off\<close> is then positive, \<^verbatim>\<open>strzl_equal\<close> reads its first byte
  there, outside the haystack; this is the result \<open>None\<close>. Otherwise the pointer is the
  position \<open>i - off\<close> of the haystack. \<^verbatim>\<open>n.len - 4 - n.anomaly_offset\<close> wraps in
  \<^verbatim>\<open>size_t\<close> only when \<open>anomaly_offset + 4 > n.len\<close>, and then the 4-byte read of the
  needle's anomaly that follows it is already out of bounds.
\<close>

function find_substr_loop ::
  "byte list \<Rightarrow> byte list \<Rightarrow> nat \<Rightarrow> u32 \<Rightarrow> nat \<Rightarrow> nat \<Rightarrow> nat option" where
  "find_substr_loop hs ns off n_anomaly n_suffix_len i =
     (if i + length ns \<le> length hs then
        (case load_u32 hs i of None \<Rightarrow> None
         | Some h_anomaly \<Rightarrow>
           if h_anomaly = n_anomaly then
             (case strzl_equal hs (i + 4) ns (4 + off) n_suffix_len of None \<Rightarrow> None
              | Some suffix_ok \<Rightarrow>
                if suffix_ok then
                  if i < off then None
                  else
                    (case strzl_equal hs (i - off) ns 0 off of None \<Rightarrow> None
                     | Some prefix_ok \<Rightarrow>
                       if prefix_ok then Some (i - off)
                       else find_substr_loop hs ns off n_anomaly n_suffix_len (i + 1))
                else find_substr_loop hs ns off n_anomaly n_suffix_len (i + 1))
           else find_substr_loop hs ns off n_anomaly n_suffix_len (i + 1))
      else Some (length hs))"
  by pat_completeness auto
termination
  by (relation "measure (\<lambda>(hs, ns, off, n_anomaly, n_suffix_len, i). Suc (length hs) - (i + length ns))")
    auto

definition strzl_naive_find_substr :: "bool \<Rightarrow> strzl_haystack_t \<Rightarrow> strzl_needle_t \<Rightarrow> nat option" where
  "strzl_naive_find_substr sc h n =
     (let hs = hay_bytes h; ns = ndl_bytes n in
      if length hs < length ns then Some (length hs)
      else if length ns = 0 then Some 0
      else if length ns = 1 then
        (case peek ns 0 of None \<Rightarrow> None | Some c \<Rightarrow> strzl_naive_find_char sc h c)
      else if length ns = 2 then strzl_naive_find_2chars sc h ns
      else if length ns = 3 then strzl_naive_find_3chars sc h ns
      else if length ns = 4 then strzl_naive_find_4chars sc h ns
      else
        (let n_suffix_len = length ns - 4 - anomaly_offset n in
         case load_u32 ns (anomaly_offset n) of None \<Rightarrow> None
         | Some n_anomaly \<Rightarrow>
           find_substr_loop hs ns (anomaly_offset n) n_anomaly n_suffix_len (anomaly_offset n)))"

section \<open>The AVX2 scanner\<close>

text \<open>
  A \<^verbatim>\<open>__m256i\<close> is used by the scanner only as eight 32-bit lanes; the lane at
  position \<open>k\<close> of an unaligned load at \<open>i\<close> holds the bytes \<open>i + 4k .. i + 4k + 3\<close>.
  \<^verbatim>\<open>_mm256_movemask_epi8\<close> collects the top bit of each of the 32 bytes.
\<close>

type_synonym m256i = "u32 list"

definition mm256_set1_epi32 :: "u32 \<Rightarrow> m256i" where
  "mm256_set1_epi32 x = replicate 8 x"

definition mm256_loadu_si256 :: "byte list \<Rightarrow> nat \<Rightarrow> m256i option" where
  "mm256_loadu_si256 m i =
     (if i + 32 \<le> length m
      then Some (map (\<lambda>k. le_u32 (take 4 (drop (i + 4 * k) m))) [0..<8])
      else None)"

definition mm256_cmpeq_epi32 :: "m256i \<Rightarrow> m256i \<Rightarrow> m256i" where
  "mm256_cmpeq_epi32 a b = map2 (\<lambda>x y. if x = y then 0xFFFFFFFF else 0) a b"

definition mm256_movemask_epi8 :: "m256i \<Rightarrow> u32" where
  "mm256_movemask_epi8 v =
     horner_sum of_bool 2 (concat (map (\<lambda>x. map (\<lambda>j. bit x (8 * j + 7)) [0..<4]) v))"

definition avx2_masks :: "byte list \<Rightarrow> nat \<Rightarrow> m256i \<Rightarrow> u32 option" where
  "avx2_masks hs i n_prefix =
     (case mm256_loadu_si256 hs i of None \<Rightarrow> None
      | Some h0_prefixes \<Rightarrow>
     (case mm256_loadu_si256 hs (i + 1) of None \<Rightarrow> None
      | Some h1_prefixes \<Rightarrow>
     (case mm256_loadu_si256 hs (i + 2) of None \<Rightarrow> None
      | Some h2_prefixes \<Rightarrow>
     (case mm256_loadu_si256 hs (i + 3) of None \<Rightarrow> None
      | Some h3_prefixes \<Rightarrow>
        Some (mm256_movemask_epi8 (mm256_cmpeq_epi32 h0_prefixes n_prefix)
              OR mm256_movemask_epi8 (mm256_cmpeq_epi32 h1_prefixes n_prefix)
              OR mm256_movemask_epi8 (mm256_cmpeq_epi32 h2_prefixes n_prefix)
              OR mm256_movemask_epi8 (mm256_cmpeq_epi32 h3_prefixes n_prefix))))))"

text \<open>
  The scalar verification \<^verbatim>\<open>for (size_t i = 0; i < width; i++)\<close> inside a stride that
  starts at \<open>at\<close>: \<open>Some (Some r)\<close> returns \<open>r\<close>, \<open>Some None\<close> falls out of the loop.
\<close>

function verify_stride :: "byte list \<Rightarrow> byte list \<Rightarrow> nat \<Rightarrow> nat \<Rightarrow> nat \<Rightarrow> nat option option" where
  "verify_stride hs ns at width i =
     (if i < width then
        (case strzl_equal hs (at + i) ns 0 (length ns) of None \<Rightarrow> None
         | Some t \<Rightarrow> if t then Some (Some (i + at)) else verify_stride hs ns at width (i + 1))
      else Some None)"
  by pat_completeness auto
termination
  by (relation "measure (\<lambda>(hs, ns, at, width, i). width - i)") auto

text \<open>
  What is left of the haystack at the cursor, the span \<^verbatim>\<open>{h_ptr, h_end - h_ptr}\<close>. Its
  length is a \<^verbatim>\<open>size_t\<close>: were the cursor past \<^verbatim>\<open>h_end\<close>, the difference would wrap and
  the search of the tail would read outside the haystack, which the loops below give as
  \<open>None\<close>.
\<close>

definition tail_haystack :: "nat \<Rightarrow> byte list \<Rightarrow> nat \<Rightarrow> strzl_haystack_t" where
  "tail_haystack p hs i = \<lparr>hay_ptr = p + i, hay_bytes = drop i hs\<rparr>"

function avx2_loop :: "bool \<Rightarrow> nat \<Rightarrow> byte list \<Rightarrow> strzl_needle_t \<Rightarrow> m256i \<Rightarrow> nat \<Rightarrow> nat option" where
  "avx2_loop sc p hs n n_prefix i =
     (if i + length (ndl_bytes n) + 32 \<le> length hs then
        (case avx2_masks hs i n_prefix of None \<Rightarrow> None
         | Some masks \<Rightarrow>
           if masks \<noteq> 0 then
             (case verify_stride hs (ndl_bytes n) i 32 0 of None \<Rightarrow> None
              | Some (Some r) \<Rightarrow> Some r
              | Some None \<Rightarrow> avx2_loop sc p hs n n_prefix (i + 32))
           else avx2_loop sc p hs n n_prefix (i + 32))
      else if length hs < i then None
      else
        (case strzl_naive_find_substr sc (tail_haystack p hs i) n of None \<Rightarrow> None
         | Some tail_match \<Rightarrow> Some (i + tail_match)))"
  by pat_completeness auto
termination
  by (relation "measure (\<lambda>(sc, p, hs, n, n_prefix, i). length hs - i)") auto

definition strzl_avx2_find_substr :: "bool \<Rightarrow> strzl_haystack_t \<Rightarrow> strzl_needle_t \<Rightarrow> nat option" where
  "strzl_avx2_find_substr sc h n =
     (if length (ndl_bytes n) < 4 then strzl_naive_find_substr sc h n
      else
        (case load_u32 (ndl_bytes n) 0 of None \<Rightarrow> None
         | Some prefix \<Rightarrow> avx2_loop sc (hay_ptr h) (hay_bytes h) n (mm256_set1_epi32 prefix) 0))"

section \<open>The NEON scanner and counter\<close>

text \<open>
  A \<^verbatim>\<open>uint32x4_t\<close> is four 32-bit lanes, a \<^verbatim>\<open>uint8x16_t\<close> sixteen bytes and a
  \<^verbatim>\<open>uint64x2_t\<close> two 64-bit lanes; a reinterpretation keeps the little-endian bytes.
\<close>

type_synonym uint32x4_t = "u32 list"
type_synonym uint8x16_t = "byte list"
type_synonym uint64x2_t = "u64 list"

definition vld1q_dup_u32 :: "u32 \<Rightarrow> uint32x4_t" where
  "vld1q_dup_u32 x = replicate 4 x"

definition vld1q_u32 :: "byte list \<Rightarrow> nat \<Rightarrow> uint32x4_t option" where
  "vld1q_u32 m i =
     (if i + 16 \<le> length m
      then Some (map (\<lambda>k. le_u32 (take 4 (drop (i + 4 * k) m))) [0..<4])
      else None)"

definition vceqq_u32 :: "uint32x4_t \<Rightarrow> uint32x4_t \<Rightarrow> uint32x4_t" where
  "vceqq_u32 a b = map2 (\<lambda>x y. if x = y then 0xFFFFFFFF else 0) a b"

definition vorrq_u32 :: "uint32x4_t \<Rightarrow> uint32x4_t \<Rightarrow> uint32x4_t" where
  "vorrq_u32 a b = map2 (OR) a b"

definition vreinterpretq_u64_u32 :: "uint32x4_t \<Rightarrow> uint64x2_t" where
  "vreinterpretq_u64_u32 v =
     [ucast (v ! 0) OR push_bit 32 (ucast (v ! 1)), ucast (v ! 2) OR push_bit 32 (ucast (v ! 3))]"

definition vgetq_lane_u64 :: "uint64x2_t \<Rightarrow> nat \<Rightarrow> u64" where
  "vgetq_lane_u64 v k = v ! k"

definition neon_has_match :: "byte list \<Rightarrow> nat \<Rightarrow> uint32x4_t \<Rightarrow> bool option" where
  "neon_has_match hs i n_prefix =
     (case vld1q_u32 hs i of None \<Rightarrow> None
      | Some l0 \<Rightarrow>
     (case vld1q_u32 hs (i + 1) of None \<Rightarrow> None
      | Some l1 \<Rightarrow>
     (case vld1q_u32 hs (i + 2) of None \<Rightarrow> None
      | Some l2 \<Rightarrow>
     (case vld1q_u32 hs (i + 3) of None \<Rightarrow> None
      | Some l3 \<Rightarrow>
        (let masks = vorrq_u32 (vorrq_u32 (vceqq_u32 l0 n_prefix) (vceqq_u32 l1 n_prefix))
                               (vorrq_u32 (vceqq_u32 l2 n_prefix) (vceqq_u32 l3 n_prefix));
             masks64x2 = vreinterpretq_u64_u32 masks
         in Some (vgetq_lane_u64 masks64x2 0 OR vgetq_lane_u64 masks64x2 1 \<noteq> 0))))))"

function neon_loop :: "bool \<Rightarrow> nat \<Rightarrow> byte list \<Rightarrow> strzl_needle_t \<Rightarrow> uint32x4_t \<Rightarrow> nat \<Rightarrow> nat option" where
  "neon_loop sc p hs n n_prefix i =
     (if i + length (ndl_bytes n) + 16 \<le> length hs then
        (case neon_has_match hs i n_prefix of None \<Rightarrow> None
         | Some has_match \<Rightarrow>
           if has_match then
             (case verify_stride hs (ndl_bytes n) i 16 0 of None \<Rightarrow> None
              | Some (Some r) \<Rightarrow> Some r
              | Some None \<Rightarrow> neon_loop sc p hs n n_prefix (i + 16))
           else neon_loop sc p hs n n_prefix (i + 16))
      else if length hs < i then None
      else
        (case strzl_naive_find_substr sc (tail_haystack p hs i) n of None \<Rightarrow> None
         | Some tail_match \<Rightarrow> Some (i + tail_match)))"
  by pat_completeness auto
termination
  by (relation "measure (\<lambda>(sc, p, hs, n, n_prefix, i). length hs - i)") auto

definition strzl_neon_find_substr :: "bool \<Rightarrow> strzl_haystack_t \<Rightarrow> strzl_needle_t \<Rightarrow> nat option" where
  "strzl_neon_find_substr sc h n =
     (if length (ndl_bytes n) < 4 then strzl_naive_find_substr sc h n
      else
        (case load_u32 (ndl_bytes n) 0 of None \<Rightarrow> None
         | Some prefix \<Rightarrow> neon_loop sc (hay_ptr h) (hay_bytes h) n (vld1q_dup_u32 prefix) 0))"

subsection \<open>\<^verbatim>\<open>strzl_neon_count_char\<close>\<close>

text \<open>
  \<^verbatim>\<open>size_t\<close> is a 64-bit word: the sum \<^verbatim>\<open>x + (divisor - 1)\<close> wraps around. Dividing by
  zero is undefined in C.
\<close>

definition strzl_divide_round_up :: "u64 \<Rightarrow> u64 \<Rightarrow> u64 option" where
  "strzl_divide_round_up x divisor =
     (if divisor = 0 then None else Some ((x + (divisor - 1)) div divisor))"

definition vld1q_dup_u8 :: "byte \<Rightarrow> uint8x16_t" where
  "vld1q_dup_u8 x = replicate 16 x"

definition vld1q_u8 :: "byte list \<Rightarrow> nat \<Rightarrow> uint8x16_t option" where
  "vld1q_u8 m i = (if i + 16 \<le> length m then Some (take 16 (drop i m)) else None)"

definition vceqq_u8 :: "uint8x16_t \<Rightarrow> uint8x16_t \<Rightarrow> uint8x16_t" where
  "vceqq_u8 a b = map2 (\<lambda>x y. if x = y then 0xFF else 0) a b"

definition vreinterpretq_u64_u8 :: "uint8x16_t \<Rightarrow> uint64x2_t" where
  "vreinterpretq_u64_u8 v = [le_u64 (take 8 v), le_u64 (take 8 (drop 8 v))]"

function neon_count_loop :: "bool \<Rightarrow> nat \<Rightarrow> byte list \<Rightarrow> byte \<Rightarrow> uint8x16_t \<Rightarrow> nat \<Rightarrow> nat \<Rightarrow> nat option" where
  "neon_count_loop sc p hs n n_vector i result =
     (if i + 16 \<le> length hs then
        (case vld1q_u8 hs i of None \<Rightarrow> None
         | Some v \<Rightarrow>
           (let masks64x2 = vreinterpretq_u64_u8 (vceqq_u8 v n_vector)
            in neon_count_loop sc p hs n n_vector (i + 16)
                 (result + popcountll (vgetq_lane_u64 masks64x2 0) div 8
                         + popcountll (vgetq_lane_u64 masks64x2 1) div 8)))
      else if length hs < i then None
      else
        (case strzl_naive_count_char sc (tail_haystack p hs i) n of None \<Rightarrow> None
         | Some tail_count \<Rightarrow> Some (result + tail_count)))"
  by pat_completeness auto
termination
  by (relation "measure (\<lambda>(sc, p, hs, n, n_vector, i, result). length hs - i)") auto

text \<open>
  The address \<^verbatim>\<open>h.ptr\<close> is cast to \<^verbatim>\<open>size_t\<close>, rounded up to a multiple of 16 and cast
  back; \<^verbatim>\<open>(size_t)(aligned_start - h.ptr)\<close> is the difference of the two words. For a
  haystack base within 15 bytes of the end of the address space the rounding wraps to
  address 0, and the difference is the distance to the end of the address space. The
  vector loop starts at \<^verbatim>\<open>aligned_start\<close>; it is reached only when that difference is
  smaller than \<^verbatim>\<open>h.len\<close>, and then \<^verbatim>\<open>aligned_start\<close> is the position of the haystack at
  that distance from \<^verbatim>\<open>h.ptr\<close>.
\<close>

definition strzl_neon_count_char :: "bool \<Rightarrow> strzl_haystack_t \<Rightarrow> byte \<Rightarrow> nat option" where
  "strzl_neon_count_char sc h n =
     (case strzl_divide_round_up (of_nat (hay_ptr h)) 16 of None \<Rightarrow> None
      | Some q \<Rightarrow>
        (let aligned_start = q * 16;
             aligned_distance = unat (aligned_start - of_nat (hay_ptr h));
             misaligned_len = (if aligned_distance < length (hay_bytes h)
                               then aligned_distance else length (hay_bytes h))
         in case strzl_naive_count_char sc
                   \<lparr>hay_ptr = hay_ptr h, hay_bytes = take misaligned_len (hay_bytes h)\<rparr> n of
              None \<Rightarrow> None
            | Some result \<Rightarrow>
              if hay_ptr h + misaligned_len \<ge> hay_ptr h + length (hay_bytes h) then Some result
              else neon_count_loop sc (hay_ptr h) (hay_bytes h) n (vld1q_dup_u8 n)
                     aligned_distance result))"

section \<open>Preconditions\<close>

text \<open>
  The documented precondition on a needle descriptor: the general scanner (needle
  length 5 and more) needs the 4-byte anomaly window to lie inside the needle. Shorter
  needles never read the field.
\<close>

definition needle_wf :: "strzl_needle_t \<Rightarrow> bool" where
  "needle_wf n \<longleftrightarrow> (5 \<le> length (ndl_bytes n) \<longrightarrow> anomaly_offset n + 4 \<le> length (ndl_bytes n))"

section \<open>Reference results\<close>

text \<open>
  The needle \<open>ns\<close> occurs in the haystack \<open>hs\<close> at position \<open>p\<close>: the \<open>length ns\<close> bytes from
  \<open>p\<close> on are there and equal the needle.
\<close>

definition occurs_at :: "byte list \<Rightarrow> byte list \<Rightarrow> nat \<Rightarrow> bool" where
  "occurs_at hs ns p \<longleftrightarrow> take (length ns) (drop p hs) = ns"

text \<open>
  \<open>r\<close> is the result of an exact search: the first position of an occurrence, or the
  haystack length when there is none.
\<close>

definition first_match :: "byte list \<Rightarrow> byte list \<Rightarrow> nat \<Rightarrow> bool" where
  "first_match hs ns r \<longleftrightarrow>
     (r < length hs \<and> occurs_at hs ns r \<or> r = length hs) \<and> (\<forall>j<r. \<not> occurs_at hs ns j)"

text \<open>
  The general scanner starts at \<^verbatim>\<open>h.ptr + n.anomaly_offset\<close> and runs while
  \<^verbatim>\<open>h_ptr + n.len <= h_end\<close>, so the candidates it examines are the positions \<open>j\<close> with
  \<open>j + anomaly_offset + length ns \<le> length hs\<close>. The kernels for one to four bytes do not read
  the field. \<open>scan_result hs ns off r\<close> says that \<open>r\<close> is the first occurrence among the
  candidates that leave \<open>off\<close> bytes after them, or the haystack length when no such
  candidate is an occurrence.
\<close>

definition examined_offset :: "strzl_needle_t \<Rightarrow> nat" where
  "examined_offset n = (if 5 \<le> length (ndl_bytes n) then anomaly_offset n else 0)"

definition scan_result :: "byte list \<Rightarrow> byte list \<Rightarrow> nat \<Rightarrow> nat \<Rightarrow> bool" where
  "scan_result hs ns off r \<longleftrightarrow>
     occurs_at hs ns r \<and> r + off + length ns \<le> length hs \<and> (\<forall>j<r. \<not> occurs_at hs ns j)
   \<or> r = length hs \<and> (\<forall>j. j + off + length ns \<le> length hs \<longrightarrow> \<not> occurs_at hs ns j)"

text \<open>
  The vector scanners verify every position of a stride, and take a stride only while
  \<^verbatim>\<open>h_ptr + n.len + stride <= h_end\<close>; what is left goes to the scalar entry point. Their
  result is therefore either a result of the scalar scan or a first occurrence found in a
  stride, which leaves at least one byte after it.
\<close>

definition vector_result :: "byte list \<Rightarrow> byte list \<Rightarrow> nat \<Rightarrow> nat \<Rightarrow> bool" where
  "vector_result hs ns off r \<longleftrightarrow>
     scan_result hs ns off r
   \<or> occurs_at hs ns r \<and> (\<forall>j<r. \<not> occurs_at hs ns j) \<and> r + 1 + length ns \<le> length hs"

section \<open>Auxiliary facts\<close>

declare count_char_tail.simps [simp del] count_char_swar.simps [simp del]
  count_char_head.simps [simp del] find_char_tail.simps [simp del]
  find_char_swar.simps [simp del] find_char_head.simps [simp del]
  find_2chars_tail.simps [simp del] find_2chars_swar.simps [simp del]
  find_3chars_tail.simps [simp del] find_3chars_swar.simps [simp del]
  find_4chars_tail.simps [simp del] find_4chars_swar.simps [simp del]
  find_4chars_head.simps [simp del] find_substr_loop.simps [simp del]
  verify_stride.simps [simp del] avx2_loop.simps [simp del]
  neon_loop.simps [simp del] neon_count_loop.simps [simp del]

lemma peek_Some: "i < length m \<Longrightarrow> peek m i = Some (m ! i)"
  by (simp add: peek_def)

lemma load_u64_Some: "i + 8 \<le> length m \<Longrightarrow> load_u64 m i = Some (le_u64 (take 8 (drop i m)))"
  by (simp add: load_u64_def)

lemma load_u32_Some: "i + 4 \<le> length m \<Longrightarrow> load_u32 m i = Some (le_u32 (take 4 (drop i m)))"
  by (simp add: load_u32_def)

lemma char_eq_Some:
  "i < length m \<Longrightarrow> j < length n \<Longrightarrow> char_eq m i n j = Some (m ! i = n ! j)"
  by (simp add: char_eq_def peek_def)

lemma count_char_tail_total: "\<exists>r. count_char_tail m n i result = Some r"
proof (induction m n i result rule: count_char_tail.induct)
  case (1 m n i result)
  show ?case
  proof (cases "i < length m")
    case True
    with 1 [OF True peek_Some [OF True]] show ?thesis
      by (subst count_char_tail.simps) (simp add: peek_Some)
  next
    case False
    then show ?thesis by (subst count_char_tail.simps) simp
  qed
qed

lemma count_char_swar_total: "\<exists>r. count_char_swar m n nnnnnnnn i result = Some r"
proof (induction m n nnnnnnnn i result rule: count_char_swar.induct)
  case (1 m n nnnnnnnn i result)
  show ?case
  proof (cases "i + 8 \<le> length m")
    case True
    with 1 [OF True load_u64_Some [OF True]] show ?thesis
      by (subst count_char_swar.simps) (simp add: load_u64_Some)
  next
    case False
    then show ?thesis
      by (subst count_char_swar.simps) (simp add: count_char_tail_total)
  qed
qed

lemma count_char_head_total: "\<exists>r. count_char_head sc p m n i result = Some r"
proof (induction sc p m n i result rule: count_char_head.induct)
  case (1 sc p m n i result)
  show ?case
  proof (cases "(p + i) mod 8 \<noteq> 0 \<and> i < length m")
    case True
    then have lt: "i < length m" by simp
    from 1 [OF True peek_Some [OF lt]] True show ?thesis
      by (subst count_char_head.simps) (simp add: peek_Some)
  next
    case False
    then show ?thesis
      by (subst count_char_head.simps) (auto simp: count_char_swar_total)
  qed
qed

lemma strzl_naive_count_char_total: "\<exists>r. strzl_naive_count_char sc h n = Some r"
  by (simp add: strzl_naive_count_char_def count_char_head_total)

subsection \<open>Bit-level facts\<close>


lemma bit_mask_0_32: "bit (0x0000000100000001 :: u64) n \<longleftrightarrow> n = 0 \<or> n = 32"
proof (cases "n < 64")
  case True
  have "\<forall>k \<in> set [0..<64]. bit (0x0000000100000001 :: u64) k = (k = 0 \<or> k = 32)"
    by code_simp
  with True show ?thesis by simp
next
  case False
  then show ?thesis by (auto dest: bit_imp_le_length)
qed

lemma and_mask_0_32:
  "(x :: u64) AND 0x0000000100000001 = of_bool (bit x 0) OR push_bit 32 (of_bool (bit x 32))"
  by (rule bit_word_eqI) (auto simp add: bit_simps bit_mask_0_32 simp del: bit_numeral_word_iff)

lemma fold32_cases:
  "fold32 x \<in> {0, 1, 0x100000000, 0x100000001}"
proof -
  obtain y where "fold32 x = y AND 0x0000000100000001"
    by (simp add: fold32_def Let_def)
  then show ?thesis
    by (cases "bit y 0"; cases "bit y 32") (simp_all add: and_mask_0_32)
qed

lemma match_indicators_4chars_bound:
  "unat (match_indicators_4chars (fold32 x) (fold32 y)) < 16"
  using fold32_cases [of x] fold32_cases [of y]
  by (auto simp: match_indicators_4chars_def)


lemma ctzll_le: "ctzll w \<le> 64"
  unfolding ctzll_def by (rule order_trans [OF length_takeWhile_le]) simp

lemma word64_nonzero_bit: "(w :: u64) \<noteq> 0 \<Longrightarrow> \<exists>i<64. bit w i"
proof (rule ccontr)
  assume nz: "w \<noteq> 0" and "\<not> (\<exists>i<64. bit w i)"
  then have "\<And>n. n < LENGTH(64) \<Longrightarrow> bit w n \<longleftrightarrow> bit (0 :: u64) n" by simp
  then have "w = 0" by (rule bit_word_eqI)
  with nz show False by simp
qed

lemma takeWhile_full: "length (takeWhile P xs) = length xs \<Longrightarrow> \<forall>x \<in> set xs. P x"
proof -
  assume len: "length (takeWhile P xs) = length xs"
  have "length (takeWhile P xs) + length (dropWhile P xs) = length xs"
    by (metis length_append takeWhile_dropWhile_id)
  with len have "dropWhile P xs = []" by simp
  then show ?thesis by (simp add: dropWhile_eq_Nil_conv)
qed

lemma ctzll_less: "w \<noteq> 0 \<Longrightarrow> ctzll w < 64"
proof (rule ccontr)
  assume nz: "w \<noteq> 0" and "\<not> ctzll w < 64"
  with ctzll_le [of w] have "ctzll w = 64" by simp
  then have "length (takeWhile (\<lambda>i. \<not> bit w i) [0..<64]) = length [0..<64]"
    by (simp add: ctzll_def)
  then have "\<forall>i \<in> set [0..<64]. \<not> bit w i" by (rule takeWhile_full)
  with word64_nonzero_bit [OF nz] show False by auto
qed

lemma popcountll_eq_0: "popcountll w = 0 \<longleftrightarrow> w = 0"
proof
  assume "popcountll w = 0"
  then have "\<forall>i<64. \<not> bit w i"
    by (auto simp: popcountll_def filter_empty_conv)
  with word64_nonzero_bit [of w] show "w = 0" by blast
next
  assume "w = 0" then show "popcountll w = 0" by (simp add: popcountll_def)
qed

lemma lookup_le: "k < 16 \<Longrightarrow> unat (lookup ! k) \<le> 3"
proof -
  have "\<forall>k \<in> set [0..<16]. unat (lookup ! k) \<le> 3"
    by code_simp
  then show "k < 16 \<Longrightarrow> unat (lookup ! k) \<le> 3" by simp
qed

lemma length_lookup: "length lookup = 16"
  by (simp add: lookup_def)

lemma lookup_4chars:
  "\<exists>off. peek lookup (unat (match_indicators_4chars (h01_indicators h nn) (h23_indicators h nn)))
           = Some off \<and> unat off \<le> 3"
proof -
  let ?k = "unat (match_indicators_4chars (h01_indicators h nn) (h23_indicators h nn))"
  have "?k < 16"
    unfolding h01_indicators_def h23_indicators_def Let_def
    by (rule match_indicators_4chars_bound)
  then show ?thesis
    by (simp add: peek_def length_lookup lookup_le)
qed

subsection \<open>The find kernels return, and never beyond the haystack length\<close>

lemma find_char_tail_bounded: "\<exists>r. find_char_tail m n i = Some r \<and> r \<le> length m"
proof (induction m n i rule: find_char_tail.induct)
  case (1 m n i)
  show ?case
  proof (cases "i < length m")
    case True
    with 1 [OF True peek_Some [OF True]] show ?thesis
      by (subst find_char_tail.simps) (simp add: peek_Some)
  next
    case False
    then show ?thesis by (subst find_char_tail.simps) simp
  qed
qed

lemma find_char_swar_bounded: "\<exists>r. find_char_swar m n nnnnnnnn i = Some r \<and> r \<le> length m"
proof (induction m n nnnnnnnn i rule: find_char_swar.induct)
  case (1 m n nnnnnnnn i)
  show ?case
  proof (cases "i + 8 \<le> length m")
    case True
    let ?mi = "char_indicators (le_u64 (take 8 (drop i m))) nnnnnnnn"
    show ?thesis
    proof (cases "?mi = 0")
      case True
      with 1 [OF \<open>i + 8 \<le> length m\<close> load_u64_Some [OF \<open>i + 8 \<le> length m\<close>]]
        \<open>i + 8 \<le> length m\<close> show ?thesis
        by (subst find_char_swar.simps) (simp add: load_u64_Some)
    next
      case False
      from ctzll_le [of ?mi] have "ctzll ?mi div 8 \<le> 8" by simp
      with False \<open>i + 8 \<le> length m\<close> show ?thesis
        by (subst find_char_swar.simps) (simp add: load_u64_Some)
    qed
  next
    case False
    then show ?thesis
      by (subst find_char_swar.simps) (simp add: find_char_tail_bounded)
  qed
qed

lemma find_char_head_bounded: "\<exists>r. find_char_head sc p m n i = Some r \<and> r \<le> length m"
proof (induction sc p m n i rule: find_char_head.induct)
  case (1 sc p m n i)
  show ?case
  proof (cases "(p + i) mod 8 \<noteq> 0 \<and> i < length m")
    case True
    then have lt: "i < length m" by simp
    from 1 [OF True peek_Some [OF lt]] True show ?thesis
      by (subst find_char_head.simps) (simp add: peek_Some)
  next
    case False
    then show ?thesis
      by (subst find_char_head.simps) (auto simp: find_char_swar_bounded)
  qed
qed

lemma strzl_naive_find_char_bounded:
  "\<exists>r. strzl_naive_find_char sc h n = Some r \<and> r \<le> length (hay_bytes h)"
  by (simp add: strzl_naive_find_char_def find_char_head_bounded)


lemma and_also_Some:
  "a = Some x \<Longrightarrow> b = Some y \<Longrightarrow> and_also a b = Some (x \<and> y)"
  by (simp add: and_also_def)

lemma chars2_eq_Some:
  "i + 2 \<le> length m \<Longrightarrow> 2 \<le> length n \<Longrightarrow>
   and_also (char_eq m i n 0) (char_eq m (i + 1) n 1)
     = Some (m ! i = n ! 0 \<and> m ! (i + 1) = n ! 1)"
  by (auto simp: and_also_def char_eq_def peek_def)

lemma chars3_eq_Some:
  "i + 3 \<le> length m \<Longrightarrow> 3 \<le> length n \<Longrightarrow>
   and_also (and_also (char_eq m i n 0) (char_eq m (i + 1) n 1)) (char_eq m (i + 2) n 2)
     = Some (m ! i = n ! 0 \<and> m ! (i + 1) = n ! 1 \<and> m ! (i + 2) = n ! 2)"
  by (auto simp: and_also_def char_eq_def peek_def)

lemma chars4_eq_Some:
  "i + 4 \<le> length m \<Longrightarrow> 4 \<le> length n \<Longrightarrow>
   chars4_eq m i n
     = Some (m ! i = n ! 0 \<and> m ! (i + 1) = n ! 1 \<and> m ! (i + 2) = n ! 2 \<and> m ! (i + 3) = n ! 3)"
  by (auto simp: chars4_eq_def and_also_def char_eq_def peek_def)

lemma find_2chars_tail_bounded:
  assumes "2 \<le> length n"
  shows "\<exists>r. find_2chars_tail m n i = Some r \<and> r \<le> length m"
proof (induction "length m - i" arbitrary: i rule: less_induct)
  case less
  show ?case
  proof (cases "i + 2 \<le> length m")
    case True
    then have "length m - (i + 1) < length m - i" by simp
    note IH = less [OF this]
    have eq: "and_also (char_eq m i n 0) (char_eq m (i + 1) n 1)
                = Some (m ! i = n ! 0 \<and> m ! (i + 1) = n ! 1)"
      using True assms by (rule chars2_eq_Some)
    from True IH show ?thesis
      unfolding find_2chars_tail.simps [of m n i] eq by simp
  next
    case False
    then show ?thesis by (subst find_2chars_tail.simps) simp
  qed
qed

lemma find_2chars_swar_bounded:
  "2 \<le> length n \<Longrightarrow> \<exists>r. find_2chars_swar m n nnnn i = Some r \<and> r \<le> length m"
proof (induction m n nnnn i rule: find_2chars_swar.induct)
  case (1 m n nnnn i)
  show ?case
  proof (cases "i + 8 \<le> length m")
    case True
    let ?h = "le_u64 (take 8 (drop i m))"
    let ?mi = "even_indicators ?h nnnn OR drop_bit 8 (odd_indicators ?h nnnn)"
    from ctzll_le [of ?mi] have "ctzll ?mi div 8 \<le> 8" by simp
    with True 1 show ?thesis
      by (subst find_2chars_swar.simps) (simp add: load_u64_Some)
  next
    case False
    with 1 show ?thesis
      by (subst find_2chars_swar.simps) (simp add: find_2chars_tail_bounded)
  qed
qed

lemma strzl_naive_find_2chars_bounded:
  "2 \<le> length n \<Longrightarrow>
   \<exists>r. strzl_naive_find_2chars sc h n = Some r \<and> r \<le> length (hay_bytes h)"
  by (auto simp: strzl_naive_find_2chars_def peek_def find_2chars_swar_bounded)

lemma find_3chars_tail_bounded:
  assumes "3 \<le> length n"
  shows "\<exists>r. find_3chars_tail m n i = Some r \<and> r \<le> length m"
proof (induction "length m - i" arbitrary: i rule: less_induct)
  case less
  show ?case
  proof (cases "i + 3 \<le> length m")
    case True
    then have "length m - (i + 1) < length m - i" by simp
    note IH = less [OF this]
    have eq: "and_also (and_also (char_eq m i n 0) (char_eq m (i + 1) n 1)) (char_eq m (i + 2) n 2)
                = Some (m ! i = n ! 0 \<and> m ! (i + 1) = n ! 1 \<and> m ! (i + 2) = n ! 2)"
      using True assms by (rule chars3_eq_Some)
    from True IH show ?thesis
      unfolding find_3chars_tail.simps [of m n i] eq by simp
  next
    case False
    then show ?thesis by (subst find_3chars_tail.simps) simp
  qed
qed

lemma find_3chars_swar_bounded:
  "3 \<le> length n \<Longrightarrow> \<exists>r. find_3chars_swar m n nn i = Some r \<and> r \<le> length m"
proof (induction m n nn i rule: find_3chars_swar.induct)
  case (1 m n nn i)
  show ?case
  proof (cases "i + 8 \<le> length m")
    case True
    let ?mi = "indicators_3chars (le_u64 (take 8 (drop i m))) nn"
    from ctzll_le [of ?mi] have "ctzll ?mi div 8 \<le> 8" by simp
    with True 1 show ?thesis
      by (subst find_3chars_swar.simps) (simp add: load_u64_Some)
  next
    case False
    with 1 show ?thesis
      by (subst find_3chars_swar.simps) (simp add: find_3chars_tail_bounded)
  qed
qed

lemma strzl_naive_find_3chars_bounded:
  "3 \<le> length n \<Longrightarrow>
   \<exists>r. strzl_naive_find_3chars sc h n = Some r \<and> r \<le> length (hay_bytes h)"
  by (auto simp: strzl_naive_find_3chars_def peek_def find_3chars_swar_bounded)

lemma find_4chars_tail_bounded:
  assumes "4 \<le> length n"
  shows "\<exists>r. find_4chars_tail m n i = Some r \<and> r \<le> length m"
proof (induction "length m - i" arbitrary: i rule: less_induct)
  case less
  show ?case
  proof (cases "i + 4 \<le> length m")
    case True
    then have "length m - (i + 1) < length m - i" by simp
    note IH = less [OF this]
    have eq: "chars4_eq m i n
                = Some (m ! i = n ! 0 \<and> m ! (i + 1) = n ! 1 \<and> m ! (i + 2) = n ! 2 \<and> m ! (i + 3) = n ! 3)"
      using True assms by (rule chars4_eq_Some)
    from True IH show ?thesis
      unfolding find_4chars_tail.simps [of m n i] eq by simp
  next
    case False
    then show ?thesis by (subst find_4chars_tail.simps) simp
  qed
qed

lemma find_4chars_swar_bounded:
  "4 \<le> length n \<Longrightarrow> \<exists>r. find_4chars_swar m n nn i = Some r \<and> r \<le> length m"
proof (induction m n nn i rule: find_4chars_swar.induct)
  case (1 m n nn i)
  show ?case
  proof (cases "i + 8 \<le> length m")
    case True
    let ?h = "le_u64 (take 8 (drop i m))"
    from lookup_4chars [of ?h nn] obtain off where
      off: "peek lookup (unat (match_indicators_4chars (h01_indicators ?h nn) (h23_indicators ?h nn)))
              = Some off" "unat off \<le> 3"
      by blast
    with True 1 show ?thesis
      by (subst find_4chars_swar.simps) (simp add: load_u64_Some)
  next
    case False
    with 1 show ?thesis
      by (subst find_4chars_swar.simps) (simp add: find_4chars_tail_bounded)
  qed
qed

lemma find_4chars_head_bounded:
  assumes "4 \<le> length n"
  shows "\<exists>r. find_4chars_head p m n i = Some r \<and>
             (case r of Inl k \<Rightarrow> k \<le> length m | Inr k \<Rightarrow> True)"
proof (induction "length m - i" arbitrary: i rule: less_induct)
  case less
  show ?case
  proof (cases "(p + i) mod 8 \<noteq> 0 \<and> i + 4 \<le> length m")
    case True
    then have le: "i + 4 \<le> length m" by simp
    then have "length m - (i + 1) < length m - i" by simp
    note IH = less [OF this]
    have eq: "chars4_eq m i n = Some (m ! i = n ! 0 \<and> m ! (i + 1) = n ! 1 \<and> m ! (i + 2) = n ! 2 \<and> m ! (i + 3) = n ! 3)"
      using le assms by (rule chars4_eq_Some)
    from True IH show ?thesis
      unfolding find_4chars_head.simps [of p m n i] eq by simp
  next
    case False
    then show ?thesis by (subst find_4chars_head.simps) auto
  qed
qed

lemma strzl_naive_find_4chars_bounded:
  assumes "4 \<le> length n"
  shows "\<exists>r. strzl_naive_find_4chars sc h n = Some r \<and> r \<le> length (hay_bytes h)"
proof -
  from find_4chars_head_bounded [OF assms, of "hay_ptr h" "hay_bytes h" 0]
  obtain r where r: "find_4chars_head (hay_ptr h) (hay_bytes h) n 0 = Some r"
    "case r of Inl k \<Rightarrow> k \<le> length (hay_bytes h) | Inr k \<Rightarrow> True"
    by blast
  show ?thesis
  proof (cases r)
    case (Inl k)
    with r show ?thesis by (simp add: strzl_naive_find_4chars_def)
  next
    case (Inr k)
    with r assms show ?thesis
      by (auto simp: strzl_naive_find_4chars_def peek_def find_4chars_swar_bounded)
  qed
qed

subsection \<open>The general scanner and the vector paths\<close>


lemma strzl_equal_eq:
  "ai + len \<le> length a \<Longrightarrow> bi + len \<le> length b \<Longrightarrow>
   strzl_equal a ai b bi len = Some (take len (drop ai a) = take len (drop bi b))"
proof (induction len arbitrary: ai bi)
  case 0
  then show ?case by simp
next
  case (Suc len)
  then have lt: "ai < length a" "bi < length b" by simp_all
  have a: "take (Suc len) (drop ai a) = a ! ai # take len (drop (ai + 1) a)"
    using lt by (simp add: Cons_nth_drop_Suc [symmetric])
  have b: "take (Suc len) (drop bi b) = b ! bi # take len (drop (bi + 1) b)"
    using lt by (simp add: Cons_nth_drop_Suc [symmetric])
  from Suc.prems have "strzl_equal a (ai + 1) b (bi + 1) len
      = Some (take len (drop (ai + 1) a) = take len (drop (bi + 1) b))"
    by (intro Suc.IH) simp_all
  with lt show ?case
    unfolding a b by (simp add: peek_def)
qed

lemma find_substr_loop_bounded:
  assumes off: "off + 4 \<le> length ns"
  shows "off \<le> i \<Longrightarrow>
         \<exists>r. find_substr_loop hs ns off n_anomaly (length ns - 4 - off) i = Some r \<and> r \<le> length hs"
proof (induction "length hs - i" arbitrary: i rule: less_induct)
  case less
  show ?case
  proof (cases "i + length ns \<le> length hs")
    case True
    with off have "length hs - (i + 1) < length hs - i" by simp
    from less(1) [OF this] less(2)
    have IH: "\<exists>r. find_substr_loop hs ns off n_anomaly (length ns - 4 - off) (i + 1) = Some r
                \<and> r \<le> length hs"
      by simp
    have ld: "load_u32 hs i = Some (le_u32 (take 4 (drop i hs)))"
      using True off by (intro load_u32_Some) simp
    have sfx: "strzl_equal hs (i + 4) ns (4 + off) (length ns - 4 - off)
       = Some (take (length ns - 4 - off) (drop (i + 4) hs)
                 = take (length ns - 4 - off) (drop (4 + off) ns))"
      using True off by (intro strzl_equal_eq) simp_all
    have pfx: "strzl_equal hs (i - off) ns 0 off
       = Some (take off (drop (i - off) hs) = take off (drop 0 ns))"
      using True off less(2) by (intro strzl_equal_eq) simp_all
    have "i - off \<le> length hs" using True by simp
    moreover have "\<not> i < off" using less(2) by simp
    ultimately show ?thesis
      using True IH
      unfolding find_substr_loop.simps [of hs ns off n_anomaly _ i] ld sfx pfx
      by simp
  next
    case False
    then show ?thesis by (subst find_substr_loop.simps) simp
  qed
qed

lemma strzl_naive_find_substr_bounded:
  assumes "needle_wf n"
  shows "\<exists>r. strzl_naive_find_substr sc h n = Some r \<and> r \<le> length (hay_bytes h)"
proof -
  let ?ns = "ndl_bytes n" and ?hs = "hay_bytes h"
  consider "length ?hs < length ?ns" | "length ?ns = 0" | "length ?ns = 1" "length ?ns \<le> length ?hs"
    | "length ?ns = 2" | "length ?ns = 3" | "length ?ns = 4"
    | "5 \<le> length ?ns" "length ?ns \<le> length ?hs"
    by linarith
  then show ?thesis
  proof cases
    case 1 then show ?thesis by (simp add: strzl_naive_find_substr_def)
  next
    case 2 then show ?thesis by (simp add: strzl_naive_find_substr_def)
  next
    case 3
    then show ?thesis
      by (simp add: strzl_naive_find_substr_def Let_def peek_def strzl_naive_find_char_bounded)
  next
    case 4
    then show ?thesis
      using strzl_naive_find_2chars_bounded [of ?ns sc h]
      by (simp add: strzl_naive_find_substr_def Let_def)
  next
    case 5
    then show ?thesis
      using strzl_naive_find_3chars_bounded [of ?ns sc h]
      by (simp add: strzl_naive_find_substr_def Let_def)
  next
    case 6
    then show ?thesis
      using strzl_naive_find_4chars_bounded [of ?ns sc h]
      by (simp add: strzl_naive_find_substr_def Let_def)
  next
    case 7
    with assms have off: "anomaly_offset n + 4 \<le> length ?ns"
      by (simp add: needle_wf_def)
    from find_substr_loop_bounded [OF off order_refl]
    show ?thesis
      using 7 off by (simp add: strzl_naive_find_substr_def Let_def load_u32_Some)
  qed
qed


lemma verify_stride_bounded:
  assumes "at + width + length ns \<le> Suc (length hs)"
  shows "\<exists>r. verify_stride hs ns at width i = Some r \<and>
             (case r of None \<Rightarrow> True | Some k \<Rightarrow> k \<le> length hs)"
proof (induction "width - i" arbitrary: i rule: less_induct)
  case less
  show ?case
  proof (cases "i < width")
    case True
    then have "width - (i + 1) < width - i" by simp
    note IH = less [OF this]
    have eq: "strzl_equal hs (at + i) ns 0 (length ns)
                = Some (take (length ns) (drop (at + i) hs) = take (length ns) (drop 0 ns))"
      using True assms by (intro strzl_equal_eq) simp_all
    have "i + at \<le> length hs" using True assms by simp
    with True IH show ?thesis
      unfolding verify_stride.simps [of hs ns at width i] eq by simp
  next
    case False
    then show ?thesis by (subst verify_stride.simps) simp
  qed
qed

lemma avx2_masks_total: "i + 35 \<le> length hs \<Longrightarrow> \<exists>masks. avx2_masks hs i n_prefix = Some masks"
  by (simp add: avx2_masks_def mm256_loadu_si256_def)

lemma neon_has_match_total:
  "i + 19 \<le> length hs \<Longrightarrow> \<exists>has_match. neon_has_match hs i n_prefix = Some has_match"
  by (simp add: neon_has_match_def vld1q_u32_def Let_def)

lemma tail_search_bounded:
  assumes "needle_wf n" and "i \<le> length hs"
  shows "\<exists>r. (case strzl_naive_find_substr sc (tail_haystack p hs i) n of None \<Rightarrow> None
               | Some tail_match \<Rightarrow> Some (i + tail_match)) = Some r \<and> r \<le> length hs"
proof -
  from strzl_naive_find_substr_bounded [OF assms(1), of sc "tail_haystack p hs i"]
  obtain r where "strzl_naive_find_substr sc (tail_haystack p hs i) n = Some r"
    "r \<le> length hs - i"
    by (auto simp: tail_haystack_def)
  with assms(2) show ?thesis by simp
qed

lemma avx2_loop_bounded:
  assumes wf: "needle_wf n" and len: "4 \<le> length (ndl_bytes n)"
  shows "i \<le> length hs \<Longrightarrow>
         \<exists>r. avx2_loop sc p hs n n_prefix i = Some r \<and> r \<le> length hs"
proof (induction "length hs - i" arbitrary: i rule: less_induct)
  case less
  show ?case
  proof (cases "i + length (ndl_bytes n) + 32 \<le> length hs")
    case True
    then have "length hs - (i + 32) < length hs - i" "i + 32 \<le> length hs" by simp_all
    from less(1) [OF this]
    obtain r where IH: "avx2_loop sc p hs n n_prefix (i + 32) = Some r" "r \<le> length hs"
      by blast
    from True len obtain masks where masks: "avx2_masks hs i n_prefix = Some masks"
      using avx2_masks_total [of i hs n_prefix] by auto
    from True have "i + 32 + length (ndl_bytes n) \<le> Suc (length hs)" by simp
    from verify_stride_bounded [OF this, of 0]
    obtain v where v: "verify_stride hs (ndl_bytes n) i 32 0 = Some v"
      "case v of None \<Rightarrow> True | Some k \<Rightarrow> k \<le> length hs"
      by blast
    from True IH v show ?thesis
      unfolding avx2_loop.simps [of sc p hs n n_prefix i] masks
      by (cases v) simp_all
  next
    case False
    with tail_search_bounded [OF wf less(2), of sc p] less(2) show ?thesis
      by (subst avx2_loop.simps) simp
  qed
qed

lemma strzl_avx2_find_substr_bounded:
  assumes "needle_wf n"
  shows "\<exists>r. strzl_avx2_find_substr sc h n = Some r \<and> r \<le> length (hay_bytes h)"
proof (cases "length (ndl_bytes n) < 4")
  case True
  with strzl_naive_find_substr_bounded [OF assms] show ?thesis
    by (simp add: strzl_avx2_find_substr_def)
next
  case False
  then have len: "4 \<le> length (ndl_bytes n)" by simp
  with avx2_loop_bounded [OF assms len, of 0 "hay_bytes h"] show ?thesis
    by (simp add: strzl_avx2_find_substr_def load_u32_Some)
qed

lemma neon_loop_bounded:
  assumes wf: "needle_wf n" and len: "4 \<le> length (ndl_bytes n)"
  shows "i \<le> length hs \<Longrightarrow>
         \<exists>r. neon_loop sc p hs n n_prefix i = Some r \<and> r \<le> length hs"
proof (induction "length hs - i" arbitrary: i rule: less_induct)
  case less
  show ?case
  proof (cases "i + length (ndl_bytes n) + 16 \<le> length hs")
    case True
    then have "length hs - (i + 16) < length hs - i" "i + 16 \<le> length hs" by simp_all
    from less(1) [OF this]
    obtain r where IH: "neon_loop sc p hs n n_prefix (i + 16) = Some r" "r \<le> length hs"
      by blast
    from True len obtain has_match where hm: "neon_has_match hs i n_prefix = Some has_match"
      using neon_has_match_total [of i hs n_prefix] by auto
    from True have "i + 16 + length (ndl_bytes n) \<le> Suc (length hs)" by simp
    from verify_stride_bounded [OF this, of 0]
    obtain v where v: "verify_stride hs (ndl_bytes n) i 16 0 = Some v"
      "case v of None \<Rightarrow> True | Some k \<Rightarrow> k \<le> length hs"
      by blast
    from True IH v show ?thesis
      unfolding neon_loop.simps [of sc p hs n n_prefix i] hm
      by (cases v) simp_all
  next
    case False
    with tail_search_bounded [OF wf less(2), of sc p] less(2) show ?thesis
      by (subst neon_loop.simps) simp
  qed
qed

lemma strzl_neon_find_substr_bounded:
  assumes "needle_wf n"
  shows "\<exists>r. strzl_neon_find_substr sc h n = Some r \<and> r \<le> length (hay_bytes h)"
proof (cases "length (ndl_bytes n) < 4")
  case True
  with strzl_naive_find_substr_bounded [OF assms] show ?thesis
    by (simp add: strzl_neon_find_substr_def)
next
  case False
  then have len: "4 \<le> length (ndl_bytes n)" by simp
  with neon_loop_bounded [OF assms len, of 0 "hay_bytes h"] show ?thesis
    by (simp add: strzl_neon_find_substr_def load_u32_Some)
qed

lemma neon_count_loop_total:
  "i \<le> length hs \<Longrightarrow> \<exists>r. neon_count_loop sc p hs n n_vector i result = Some r"
proof (induction "length hs - i" arbitrary: i result rule: less_induct)
  case less
  show ?case
  proof (cases "i + 16 \<le> length hs")
    case True
    then have "length hs - (i + 16) < length hs - i" "i + 16 \<le> length hs" by simp_all
    note IH = less(1) [OF this]
    have ld: "vld1q_u8 hs i = Some (take 16 (drop i hs))"
      using True by (simp add: vld1q_u8_def)
    from True IH show ?thesis
      unfolding neon_count_loop.simps [of sc p hs n n_vector i result] ld Let_def
      by simp
  next
    case False
    from strzl_naive_count_char_total [of sc "tail_haystack p hs i" n]
    obtain t where "strzl_naive_count_char sc (tail_haystack p hs i) n = Some t" by blast
    with False less(2) show ?thesis
      by (subst neon_count_loop.simps) simp
  qed
qed

lemma strzl_neon_count_char_total: "\<exists>r. strzl_neon_count_char sc h n = Some r"
proof -
  obtain q where q: "strzl_divide_round_up (of_nat (hay_ptr h)) 16 = Some q"
    by (simp add: strzl_divide_round_up_def)
  define d where "d = unat (q * 16 - of_nat (hay_ptr h))"
  let ?ml = "if d < length (hay_bytes h) then d else length (hay_bytes h)"
  from strzl_naive_count_char_total
  obtain r where r: "strzl_naive_count_char sc
      \<lparr>hay_ptr = hay_ptr h, hay_bytes = take ?ml (hay_bytes h)\<rparr> n = Some r"
    by blast
  show ?thesis
  proof (cases "d < length (hay_bytes h)")
    case True
    then have "d \<le> length (hay_bytes h)" by simp
    from neon_count_loop_total [OF this] True show ?thesis
      unfolding strzl_neon_count_char_def q Let_def d_def [symmetric] option.case r
      by simp
  next
    case False
    then show ?thesis
      unfolding strzl_neon_count_char_def q Let_def d_def [symmetric] option.case r
      by simp
  qed
qed

subsection \<open>Finding and counting walk the haystack alike\<close>

lemma find_count_tail:
  "\<exists>r k. find_char_tail m n i = Some r \<and> count_char_tail m n i result = Some (result + k)
         \<and> (r < length m \<longleftrightarrow> 0 < k)"
proof (induction "length m - i" arbitrary: i result rule: less_induct)
  case less
  show ?case
  proof (cases "i < length m")
    case True
    then have "length m - (i + 1) < length m - i" by simp
    from less [OF this, of "result + (if m ! i = n then 1 else 0)"]
    obtain r k where IH: "find_char_tail m n (i + 1) = Some r"
      "count_char_tail m n (i + 1) (result + (if m ! i = n then 1 else 0))
         = Some (result + (if m ! i = n then 1 else 0) + k)"
      "r < length m \<longleftrightarrow> 0 < k"
      by blast
    have pk: "peek m i = Some (m ! i)" using True by (rule peek_Some)
    have c: "count_char_tail m n i result = Some (result + ((if m ! i = n then 1 else 0) + k))"
      unfolding count_char_tail.simps [of m n i] pk using True IH(2) by (simp add: add.assoc)
    show ?thesis
    proof (cases "m ! i = n")
      case eq: True
      have "find_char_tail m n i = Some i"
        unfolding find_char_tail.simps [of m n i] pk using True eq by simp
      with c eq True show ?thesis by auto
    next
      case False
      have "find_char_tail m n i = Some r"
        unfolding find_char_tail.simps [of m n i] pk using True False IH(1) by simp
      with c False IH(3) show ?thesis by auto
    qed
  next
    case False
    then show ?thesis
      unfolding find_char_tail.simps [of m n i] count_char_tail.simps [of m n i]
      by simp
  qed
qed

lemma find_count_swar:
  "\<exists>r k. find_char_swar m n nnnnnnnn i = Some r
         \<and> count_char_swar m n nnnnnnnn i result = Some (result + k)
         \<and> (r < length m \<longleftrightarrow> 0 < k)"
proof (induction "length m - i" arbitrary: i result rule: less_induct)
  case less
  show ?case
  proof (cases "i + 8 \<le> length m")
    case True
    let ?mi = "char_indicators (le_u64 (take 8 (drop i m))) nnnnnnnn"
    from True have "length m - (i + 8) < length m - i" by simp
    from less [OF this, of "result + popcountll ?mi"]
    obtain r k where IH: "find_char_swar m n nnnnnnnn (i + 8) = Some r"
      "count_char_swar m n nnnnnnnn (i + 8) (result + popcountll ?mi)
         = Some (result + popcountll ?mi + k)"
      "r < length m \<longleftrightarrow> 0 < k"
      by blast
    have ld: "load_u64 m i = Some (le_u64 (take 8 (drop i m)))"
      using True by (rule load_u64_Some)
    have c: "count_char_swar m n nnnnnnnn i result = Some (result + (popcountll ?mi + k))"
      unfolding count_char_swar.simps [of m n nnnnnnnn i] ld using True IH(2)
      by (simp add: add.assoc)
    show ?thesis
    proof (cases "?mi = 0")
      case zero: True
      then have "popcountll ?mi = 0" by (simp only: popcountll_eq_0)
      moreover have "find_char_swar m n nnnnnnnn i = Some r"
        unfolding find_char_swar.simps [of m n nnnnnnnn i] ld using True zero IH(1) by simp
      ultimately show ?thesis using c IH(3) by auto
    next
      case False
      then have pos: "0 < popcountll ?mi" using popcountll_eq_0 [of ?mi] by simp
      from ctzll_less [OF False] have "ctzll ?mi div 8 < 8" by simp
      with True have lt: "i + ctzll ?mi div 8 < length m" by simp
      have "find_char_swar m n nnnnnnnn i = Some (i + ctzll ?mi div 8)"
        unfolding find_char_swar.simps [of m n nnnnnnnn i] ld using True False by simp
      with c pos lt show ?thesis by auto
    qed
  next
    case False
    with find_count_tail [of m n i result] show ?thesis
      unfolding find_char_swar.simps [of m n nnnnnnnn i]
        count_char_swar.simps [of m n nnnnnnnn i]
      by simp
  qed
qed

lemma find_count_head:
  "\<exists>r k. find_char_head sc p m n i = Some r
         \<and> count_char_head sc p m n i result = Some (result + k)
         \<and> (r < length m \<longleftrightarrow> 0 < k)"
proof (induction "length m - i" arbitrary: i result rule: less_induct)
  case less
  show ?case
  proof (cases "(p + i) mod 8 \<noteq> 0 \<and> i < length m")
    case True
    then have lt: "i < length m" by simp
    then have "length m - (i + 1) < length m - i" by simp
    from less [OF this, of "result + (if m ! i = n then 1 else 0)"]
    obtain r k where IH: "find_char_head sc p m n (i + 1) = Some r"
      "count_char_head sc p m n (i + 1) (result + (if m ! i = n then 1 else 0))
         = Some (result + (if m ! i = n then 1 else 0) + k)"
      "r < length m \<longleftrightarrow> 0 < k"
      by blast
    have pk: "peek m i = Some (m ! i)" using lt by (rule peek_Some)
    have c: "count_char_head sc p m n i result
               = Some (result + ((if m ! i = n then 1 else 0) + k))"
      unfolding count_char_head.simps [of sc p m n i] pk using True IH(2)
      by (simp add: add.assoc)
    show ?thesis
    proof (cases "m ! i = n")
      case eq: True
      have "find_char_head sc p m n i = Some i"
        unfolding find_char_head.simps [of sc p m n i] pk using True eq by simp
      with c eq lt show ?thesis by auto
    next
      case False
      have "find_char_head sc p m n i = Some r"
        unfolding find_char_head.simps [of sc p m n i] pk using True False IH(1) by simp
      with c False IH(3) show ?thesis by auto
    qed
  next
    case False
    with find_count_swar [of m n "broadcast_char sc n" i result] show ?thesis
      unfolding find_char_head.simps [of sc p m n i] count_char_head.simps [of sc p m n i]
      by auto
  qed
qed

subsection \<open>Little-endian loads\<close>

lemma bit_le_u64:
  "bit (le_u64 bs) n \<longleftrightarrow> n < 64 \<and> n div 8 < length bs \<and> bit (bs ! (n div 8)) (n mod 8)"
proof (induction bs arbitrary: n)
  case Nil
  then show ?case by simp
next
  case (Cons b bs)
  show ?case
  proof (cases "n < 8")
    case True
    then show ?thesis
      by (simp add: bit_or_iff bit_push_bit_iff bit_ucast_iff)
  next
    case False
    then have n: "n = (n - 8) + 8" by simp
    have d: "n div 8 = Suc ((n - 8) div 8)" and m: "n mod 8 = (n - 8) mod 8"
      using False by (simp_all add: le_div_geq le_mod_geq)
    have nb: "\<not> bit b n"
      using False by (auto dest: bit_imp_le_length)
    show ?thesis
      using False nb Cons.IH [of "n - 8"]
      by (auto simp add: bit_or_iff bit_push_bit_iff bit_ucast_iff d m)
  qed
qed

lemma bit_le_u32:
  "bit (le_u32 bs) n \<longleftrightarrow> n < 32 \<and> n div 8 < length bs \<and> bit (bs ! (n div 8)) (n mod 8)"
proof (induction bs arbitrary: n)
  case Nil
  then show ?case by simp
next
  case (Cons b bs)
  show ?case
  proof (cases "n < 8")
    case True
    then show ?thesis
      by (simp add: bit_or_iff bit_push_bit_iff bit_ucast_iff)
  next
    case False
    have d: "n div 8 = Suc ((n - 8) div 8)" and m: "n mod 8 = (n - 8) mod 8"
      using False by (simp_all add: le_div_geq le_mod_geq)
    have nb: "\<not> bit b n"
      using False by (auto dest: bit_imp_le_length)
    show ?thesis
      using False nb Cons.IH [of "n - 8"]
      by (auto simp add: bit_or_iff bit_push_bit_iff bit_ucast_iff d m)
  qed
qed

lemma byte_of_le_u64:
  assumes "k < length bs" "k < 8" "j < 8"
  shows "bit (le_u64 bs) (8 * k + j) \<longleftrightarrow> bit (bs ! k) j"
  using assms by (simp add: bit_le_u64)

lemma byte_of_le_u32:
  assumes "k < length bs" "k < 4" "j < 8"
  shows "bit (le_u32 bs) (8 * k + j) \<longleftrightarrow> bit (bs ! k) j"
  using assms by (simp add: bit_le_u32)

lemma le_u32_inject:
  assumes "length a = 4" "length b = 4" "le_u32 a = le_u32 b"
  shows "a = b"
proof (rule nth_equalityI)
  show "length a = length b" using assms by simp
  fix k assume k: "k < length a"
  show "a ! k = b ! k"
  proof (rule bit_word_eqI)
    fix j assume "j < LENGTH(8)"
    then have j: "j < 8" by simp
    from k assms(1,2) j have "bit (le_u32 a) (8 * k + j) \<longleftrightarrow> bit (a ! k) j"
      "bit (le_u32 b) (8 * k + j) \<longleftrightarrow> bit (b ! k) j"
      by (simp_all add: byte_of_le_u32)
    with assms(3) show "bit (a ! k) j \<longleftrightarrow> bit (b ! k) j" by simp
  qed
qed

subsection \<open>The general scanner finds the first examined occurrence\<close>

lemma occurs_at_bound: "occurs_at hs ns p \<Longrightarrow> ns \<noteq> [] \<Longrightarrow> p + length ns \<le> length hs"
proof -
  assume occ: "occurs_at hs ns p" and ne: "ns \<noteq> []"
  from occ have "length (take (length ns) (drop p hs)) = length ns"
    by (simp add: occurs_at_def)
  then have "min (length ns) (length hs - p) = length ns" by simp
  with ne show ?thesis by (cases "length hs - p") auto
qed

lemma take_drop_split3:
  assumes "off + 4 \<le> len"
  shows "take len (drop p xs)
           = take off (drop p xs) @ take 4 (drop (p + off) xs) @ take (len - 4 - off) (drop (p + off + 4) xs)"
proof -
  have "len = off + (4 + (len - 4 - off))" using assms by simp
  then have "take len (drop p xs) = take (off + (4 + (len - 4 - off))) (drop p xs)" by simp
  also have "\<dots> = take off (drop p xs) @ take (4 + (len - 4 - off)) (drop off (drop p xs))"
    by (rule take_add)
  also have "take (4 + (len - 4 - off)) (drop off (drop p xs))
      = take 4 (drop off (drop p xs)) @ take (len - 4 - off) (drop 4 (drop off (drop p xs)))"
    by (rule take_add)
  finally show ?thesis by (simp add: add.commute add.left_commute)
qed

lemma window_match_iff:
  assumes off: "off + 4 \<le> length ns" and fit: "p + off + length ns \<le> length hs"
  shows "occurs_at hs ns p \<longleftrightarrow>
           le_u32 (take 4 (drop (p + off) hs)) = le_u32 (take 4 (drop off ns))
         \<and> take (length ns - 4 - off) (drop (p + off + 4) hs)
             = take (length ns - 4 - off) (drop (4 + off) ns)
         \<and> take off (drop p hs) = take off (drop 0 ns)"
proof -
  let ?len = "length ns"
  have h: "take ?len (drop p hs)
      = take off (drop p hs) @ take 4 (drop (p + off) hs) @ take (?len - 4 - off) (drop (p + off + 4) hs)"
    using off by (rule take_drop_split3)
  have "take ?len (drop 0 ns)
      = take off (drop 0 ns) @ take 4 (drop (0 + off) ns) @ take (?len - 4 - off) (drop (0 + off + 4) ns)"
    using off by (rule take_drop_split3)
  then have n: "ns = take off ns @ take 4 (drop off ns) @ take (?len - 4 - off) (drop (4 + off) ns)"
    by (simp add: add.commute)
  have l4: "length (take 4 (drop (p + off) hs)) = 4" "length (take 4 (drop off ns)) = 4"
    using off fit by simp_all
  have lo: "length (take off (drop p hs)) = length (take off ns)"
    using off fit by simp
  have w: "le_u32 (take 4 (drop (p + off) hs)) = le_u32 (take 4 (drop off ns))
        \<longleftrightarrow> take 4 (drop (p + off) hs) = take 4 (drop off ns)"
    using le_u32_inject [OF l4] by auto
  have "occurs_at hs ns p \<longleftrightarrow>
      take off (drop p hs) @ take 4 (drop (p + off) hs) @ take (?len - 4 - off) (drop (p + off + 4) hs)
      = take off ns @ take 4 (drop off ns) @ take (?len - 4 - off) (drop (4 + off) ns)"
    unfolding occurs_at_def h using n by simp
  also have "\<dots> \<longleftrightarrow> take off (drop p hs) = take off ns
      \<and> take 4 (drop (p + off) hs) = take 4 (drop off ns)
      \<and> take (?len - 4 - off) (drop (p + off + 4) hs) = take (?len - 4 - off) (drop (4 + off) ns)"
    using lo l4 by (simp add: append_eq_append_conv)
  finally show ?thesis using w by auto
qed

lemma find_substr_loop_first:
  assumes off: "off + 4 \<le> length ns"
  shows "off \<le> i \<Longrightarrow> \<forall>j < i - off. \<not> occurs_at hs ns j \<Longrightarrow>
         \<exists>r. find_substr_loop hs ns off (le_u32 (take 4 (drop off ns))) (length ns - 4 - off) i = Some r
           \<and> (occurs_at hs ns r \<and> r + off + length ns \<le> length hs \<and> (\<forall>j<r. \<not> occurs_at hs ns j)
              \<or> r = length hs \<and> (\<forall>j. j + off + length ns \<le> length hs \<longrightarrow> \<not> occurs_at hs ns j))"
proof (induction "length hs - i" arbitrary: i rule: less_induct)
  case less
  let ?p = "i - off"
  let ?na = "le_u32 (take 4 (drop off ns))"
  show ?case
  proof (cases "i + length ns \<le> length hs")
    case True
    have fit: "?p + off + length ns \<le> length hs" using True less(2) by simp
    have ip: "?p + off = i" using less(2) by simp
    have ld: "load_u32 hs i = Some (le_u32 (take 4 (drop i hs)))"
      using True off by (intro load_u32_Some) simp
    have sfx: "strzl_equal hs (i + 4) ns (4 + off) (length ns - 4 - off)
       = Some (take (length ns - 4 - off) (drop (i + 4) hs)
                 = take (length ns - 4 - off) (drop (4 + off) ns))"
      using True off by (intro strzl_equal_eq) simp_all
    have pfx: "strzl_equal hs (i - off) ns 0 off
       = Some (take off (drop (i - off) hs) = take off (drop 0 ns))"
      using True off less(2) by (intro strzl_equal_eq) simp_all
    have above: "\<not> i < off" using less(2) by simp
    have occ: "occurs_at hs ns ?p \<longleftrightarrow>
           le_u32 (take 4 (drop i hs)) = ?na
         \<and> take (length ns - 4 - off) (drop (i + 4) hs)
             = take (length ns - 4 - off) (drop (4 + off) ns)
         \<and> take off (drop ?p hs) = take off (drop 0 ns)"
      using window_match_iff [OF off fit] by (simp add: ip)
    show ?thesis
    proof (cases "occurs_at hs ns ?p")
      case hit: True
      have "find_substr_loop hs ns off ?na (length ns - 4 - off) i = Some ?p"
        unfolding find_substr_loop.simps [of hs ns off ?na _ i] ld sfx pfx
        using True hit occ above by simp
      with hit fit less(3) show ?thesis by blast
    next
      case miss: False
      from True off have "length hs - (i + 1) < length hs - i" by simp
      moreover have "off \<le> i + 1" using less(2) by simp
      moreover have "\<forall>j < i + 1 - off. \<not> occurs_at hs ns j"
      proof (intro allI impI)
        fix j assume "j < i + 1 - off"
        with less(2) have "j < ?p \<or> j = ?p" by auto
        with less(3) miss show "\<not> occurs_at hs ns j" by auto
      qed
      ultimately have IH: "\<exists>r. find_substr_loop hs ns off ?na (length ns - 4 - off) (i + 1) = Some r
           \<and> (occurs_at hs ns r \<and> r + off + length ns \<le> length hs \<and> (\<forall>j<r. \<not> occurs_at hs ns j)
              \<or> r = length hs \<and> (\<forall>j. j + off + length ns \<le> length hs \<longrightarrow> \<not> occurs_at hs ns j))"
        by (rule less(1))
      have "find_substr_loop hs ns off ?na (length ns - 4 - off) i
              = find_substr_loop hs ns off ?na (length ns - 4 - off) (i + 1)"
        unfolding find_substr_loop.simps [of hs ns off ?na _ i] ld sfx pfx
        using True miss occ above by auto
      with IH show ?thesis by simp
    qed
  next
    case False
    have "\<forall>j. j + off + length ns \<le> length hs \<longrightarrow> \<not> occurs_at hs ns j"
    proof (intro allI impI)
      fix j assume "j + off + length ns \<le> length hs"
      with False have "j < ?p" by simp
      with less(3) show "\<not> occurs_at hs ns j" by simp
    qed
    moreover have "find_substr_loop hs ns off ?na (length ns - 4 - off) i = Some (length hs)"
      using False by (subst find_substr_loop.simps) simp
    ultimately show ?thesis by blast
  qed
qed

subsection \<open>Templates built from non-negative values\<close>

lemma not_bit7: "(c :: byte) < 0x80 \<Longrightarrow> \<not> bit c 7"
proof -
  assume "c < 0x80"
  then have "uint c < 128" by (simp add: word_less_def)
  moreover have "0 \<le> uint c" by simp
  ultimately have "uint c div 2 ^ 7 = 0" by simp
  then have "\<not> bit (uint c) 7" by (simp add: bit_iff_odd)
  then show ?thesis by (simp add: bit_uint_iff)
qed

lemma char_to_u64_unsigned: "\<not> sc \<or> c < 0x80 \<Longrightarrow> char_to_u64 sc c = ucast c"
proof (cases sc)
  case False
  then show ?thesis by (simp add: char_to_u64_def)
next
  case True
  assume "\<not> sc \<or> c < 0x80"
  with True have "\<not> bit c 7" by (simp add: not_bit7)
  then have "(scast c :: u64) = ucast c"
    by (intro bit_word_eqI)
      (auto simp: bit_word_scast_iff bit_word_ucast_iff dest: bit_imp_le_length)
  with True show ?thesis by (simp add: char_to_u64_def)
qed

lemma broadcast_ucast:
  "(let x = (ucast (c :: byte) :: u64); x = x OR push_bit 8 x; x = x OR push_bit 16 x;
        x = x OR push_bit 32 x in x) = le_u64 [c, c, c, c, c, c, c, c]"
  unfolding Let_def
  by (rule bit_word_eqI) (auto simp: bit_simps)

lemma broadcast_char_unsigned:
  "\<not> sc \<or> c < 0x80 \<Longrightarrow> broadcast_char sc c = le_u64 [c, c, c, c, c, c, c, c]"
  unfolding broadcast_char_def by (simp only: char_to_u64_unsigned broadcast_ucast)


lemma bit_mask_bytes: "bit (0x0101010101010101 :: u64) n \<longleftrightarrow> n < 64 \<and> n mod 8 = 0"
proof (cases "n < 64")
  case True
  have "\<forall>k \<in> set [0..<64]. bit (0x0101010101010101 :: u64) k = (k mod 8 = 0)"
    by code_simp
  with True show ?thesis by simp
next
  case False
  then show ?thesis by (auto dest: bit_imp_le_length)
qed

lemma all_less_8: "(\<forall>j<8. P j) \<longleftrightarrow> P 0 \<and> P 1 \<and> P 2 \<and> P 3 \<and> P 4 \<and> P 5 \<and> P 6 \<and> P (7::nat)"
proof -
  have "{..<8::nat} = {0, 1, 2, 3, 4, 5, 6, 7}" by auto
  then have "(\<forall>j<8. P j) \<longleftrightarrow> (\<forall>j \<in> {0, 1, 2, 3, 4, 5, 6, 7}. P j)"
    by (metis lessThan_iff)
  then show ?thesis by simp
qed

lemma bit_and_drop:
  "bit (y AND drop_bit m y) n \<longleftrightarrow> bit y n \<and> bit y (m + n)"
  by (simp add: bit_and_iff bit_drop_bit_eq)

lemma fold_step:
  assumes y: "\<And>n. bit y n \<longleftrightarrow> (\<forall>j<a. bit x (n + j))"
  shows "bit (y AND drop_bit a y) n \<longleftrightarrow> (\<forall>j<2 * a. bit x (n + j))"
proof -
  have "bit (y AND drop_bit a y) n \<longleftrightarrow> (\<forall>j<a. bit x (n + j)) \<and> (\<forall>j<a. bit x (a + n + j))"
    by (simp only: bit_and_drop y)
  also have "\<dots> \<longleftrightarrow> (\<forall>j<2 * a. bit x (n + j))"
  proof (intro iffI allI impI conjI)
    fix j assume h: "(\<forall>j<a. bit x (n + j)) \<and> (\<forall>j<a. bit x (a + n + j))" and j: "j < 2 * a"
    show "bit x (n + j)"
    proof (cases "j < a")
      case True with h show ?thesis by simp
    next
      case False
      with j have "j - a < a" by simp
      with h have "bit x (a + n + (j - a))" by blast
      moreover from False have "a + n + (j - a) = n + j" by simp
      ultimately show ?thesis by simp
    qed
  next
    fix j assume h: "\<forall>j<2 * a. bit x (n + j)" and j: "j < a"
    then show "bit x (n + j)" by simp
  next
    fix j assume h: "\<forall>j<2 * a. bit x (n + j)" and j: "j < a"
    then have "bit x (n + (a + j))" by simp
    then show "bit x (a + n + j)" by (simp add: add.commute add.left_commute)
  qed
  finally show ?thesis .
qed

lemma bit_fold8:
  fixes x :: u64
  shows "bit ((x AND drop_bit 1 x) AND drop_bit 2 (x AND drop_bit 1 x)
              AND drop_bit 4 ((x AND drop_bit 1 x) AND drop_bit 2 (x AND drop_bit 1 x))) n
         \<longleftrightarrow> (\<forall>j<8. bit x (n + j))"
proof -
  have 0: "bit x k \<longleftrightarrow> (\<forall>j<1. bit x (k + j))" for k by simp
  have 1: "bit (x AND drop_bit 1 x) k \<longleftrightarrow> (\<forall>j<2. bit x (k + j))" for k
    using fold_step [of x 1 x k, OF 0] by simp
  have 2: "bit ((x AND drop_bit 1 x) AND drop_bit 2 (x AND drop_bit 1 x)) k
            \<longleftrightarrow> (\<forall>j<4. bit x (k + j))" for k
    using fold_step [of "x AND drop_bit 1 x" 2 x k, OF 1] by simp
  show ?thesis
    using fold_step [of "(x AND drop_bit 1 x) AND drop_bit 2 (x AND drop_bit 1 x)" 4 x n, OF 2]
    by (simp only: and.assoc) simp
qed

lemma byte_eq_iff_bits: "(a :: byte) = b \<longleftrightarrow> (\<forall>j<8. bit a j \<longleftrightarrow> bit b j)"
proof
  assume "\<forall>j<8. bit a j \<longleftrightarrow> bit b j"
  then show "a = b" by (intro bit_word_eqI) simp
qed simp

lemma bit_char_indicators:
  assumes "length hs = 8" "length ts = 8"
  shows "bit (char_indicators (le_u64 hs) (le_u64 ts)) n \<longleftrightarrow> (\<exists>k<8. n = 8 * k \<and> hs ! k = ts ! k)"
proof -
  define N where "N = NOT (le_u64 hs XOR le_u64 ts)"
  define F where "F = (N AND drop_bit 1 N) AND drop_bit 2 (N AND drop_bit 1 N)
              AND drop_bit 4 ((N AND drop_bit 1 N) AND drop_bit 2 (N AND drop_bit 1 N))"
  have eq: "char_indicators (le_u64 hs) (le_u64 ts) = F AND 0x0101010101010101"
    by (simp only: char_indicators_def Let_def N_def F_def and.assoc)
  have "bit F n \<longleftrightarrow> (\<forall>j<8. bit N (n + j))"
    unfolding F_def by (rule bit_fold8)
  moreover have "bit (F AND 0x0101010101010101) n \<longleftrightarrow> bit F n \<and> bit (0x0101010101010101 :: u64) n"
    by (rule bit_and_iff)
  ultimately have ci: "bit (char_indicators (le_u64 hs) (le_u64 ts)) n
          \<longleftrightarrow> (\<forall>j<8. bit N (n + j)) \<and> n < 64 \<and> n mod 8 = 0"
    by (simp only: eq bit_mask_bytes)
  show ?thesis
  proof (cases "n < 64 \<and> n mod 8 = 0")
    case False
    then have "\<not> (\<exists>k<8. n = 8 * k \<and> hs ! k = ts ! k)" by auto
    with False ci show ?thesis by blast
  next
    case True
    then obtain k where k: "n = 8 * k" "k < 8" by (auto simp: mod_eq_0_iff_dvd elim!: dvdE)
    have "(\<forall>j<8. bit N (n + j)) \<longleftrightarrow> (\<forall>j<8. bit (hs ! k) j \<longleftrightarrow> bit (ts ! k) j)"
      using k assms by (auto simp: N_def bit_not_iff bit_xor_iff byte_of_le_u64)
    also have "\<dots> \<longleftrightarrow> hs ! k = ts ! k" by (simp add: byte_eq_iff_bits)
    finally show ?thesis using k True ci by auto
  qed
qed


lemma ctzll_bit: "w \<noteq> 0 \<Longrightarrow> bit w (ctzll w)"
proof -
  assume nz: "w \<noteq> 0"
  let ?xs = "[0..<64]" and ?P = "\<lambda>i. \<not> bit w i"
  from ctzll_less [OF nz] have lt: "length (takeWhile ?P ?xs) < length ?xs"
    by (simp add: ctzll_def)
  from nth_length_takeWhile [OF lt] lt show ?thesis
    by (simp add: ctzll_def)
qed

lemma ctzll_least: "i < ctzll w \<Longrightarrow> \<not> bit w i"
proof -
  assume i: "i < ctzll w"
  let ?xs = "[0..<64]" and ?P = "\<lambda>i. \<not> bit w i"
  from i have lt: "i < length (takeWhile ?P ?xs)" by (simp add: ctzll_def)
  then have "takeWhile ?P ?xs ! i \<in> set (takeWhile ?P ?xs)" by (rule nth_mem)
  then have "?P (takeWhile ?P ?xs ! i)" by (rule set_takeWhileD [THEN conjunct2])
  moreover have "takeWhile ?P ?xs ! i = ?xs ! i" using lt by (rule takeWhile_nth)
  moreover have "i < 64" using i ctzll_le [of w] by simp
  ultimately show ?thesis by simp
qed

lemma indicator_zero_iff:
  assumes w: "\<And>n. bit (w :: u64) n \<longleftrightarrow> (\<exists>k<8. n = 8 * k \<and> P k)"
  shows "w = 0 \<longleftrightarrow> (\<forall>k<8. \<not> P k)"
proof
  assume "w = 0"
  then have "\<And>n. \<not> bit w n" by simp
  with w show "\<forall>k<8. \<not> P k" by blast
next
  assume "\<forall>k<8. \<not> P k"
  with w have "\<And>n. \<not> bit w n" by blast
  then show "w = 0" by (intro bit_word_eqI) simp
qed

lemma indicator_ctz:
  assumes w: "\<And>n. bit (w :: u64) n \<longleftrightarrow> (\<exists>k<8. n = 8 * k \<and> P k)" and nz: "w \<noteq> 0"
  shows "ctzll w div 8 < 8 \<and> P (ctzll w div 8) \<and> (\<forall>j<ctzll w div 8. \<not> P j)"
proof -
  from ctzll_bit [OF nz] w obtain k where k: "k < 8" "ctzll w = 8 * k" "P k" by blast
  then have d: "ctzll w div 8 = k" by simp
  have "\<not> P j" if "j < k" for j
  proof
    assume "P j"
    with that k(1) w have "bit w (8 * j)" by auto
    moreover from that k(2) have "8 * j < ctzll w" by simp
    ultimately show False using ctzll_least by blast
  qed
  with k d show ?thesis by simp
qed

lemma indicator_popcount:
  assumes w: "\<And>n. bit (w :: u64) n \<longleftrightarrow> (\<exists>k<8. n = 8 * k \<and> P k)"
  shows "popcountll w = length (filter P [0..<8])"
proof -
  have "{i. i < 64 \<and> bit w ([0..<64] ! i)} = {i. i < 64 \<and> bit w i}"
    by auto
  then have "popcountll w = card {i. i < 64 \<and> bit w i}"
    by (simp add: popcountll_def length_filter_conv_card)
  also have "{i. i < 64 \<and> bit w i} = (\<lambda>k. 8 * k) ` {k. k < 8 \<and> P k}"
    using w by auto
  also have "card \<dots> = card {k. k < 8 \<and> P k}"
    by (intro card_image inj_onI) simp
  also have "{k. k < 8 \<and> P k} = {k. k < 8 \<and> P ([0..<8] ! k)}"
    by auto
  also have "card \<dots> = length (filter P [0..<8])"
    by (simp add: length_filter_conv_card)
  finally show ?thesis .
qed

lemma length_filter_nth:
  "length (filter (\<lambda>k. Q (xs ! k)) [0..<length xs]) = length (filter Q xs)"
proof -
  have "filter Q xs = filter Q (map ((!) xs) [0..<length xs])" by (simp add: map_nth)
  also have "\<dots> = map ((!) xs) (filter (Q \<circ> (!) xs) [0..<length xs])" by (rule filter_map)
  finally show ?thesis by (simp add: comp_def)
qed


lemma slice_nth: "i + 8 \<le> length m \<Longrightarrow> k < 8 \<Longrightarrow> take 8 (drop i m) ! k = m ! (i + k)"
  by simp

lemma slice_indicators:
  assumes "i + 8 \<le> length m"
  shows "bit (char_indicators (le_u64 (take 8 (drop i m))) (le_u64 [c, c, c, c, c, c, c, c])) n
         \<longleftrightarrow> (\<exists>k<8. n = 8 * k \<and> m ! (i + k) = c)"
proof -
  have l: "length (take 8 (drop i m)) = 8" "length [c, c, c, c, c, c, c, c] = 8"
    using assms by simp_all
  have c: "[c, c, c, c, c, c, c, c] ! k = c" if "k < 8" for k
  proof -
    have "\<forall>x \<in> set [c, c, c, c, c, c, c, c]. x = c" by simp
    moreover from that have "[c, c, c, c, c, c, c, c] ! k \<in> set [c, c, c, c, c, c, c, c]"
      by (intro nth_mem) simp
    ultimately show ?thesis by blast
  qed
  show ?thesis
    unfolding bit_char_indicators [OF l]
    using assms c by (auto simp: slice_nth)
qed

subsection \<open>Counting\<close>

lemma count_char_tail_eq:
  "i \<le> length m \<Longrightarrow>
   count_char_tail m c i result = Some (result + length (filter (\<lambda>b. b = c) (drop i m)))"
proof (induction "length m - i" arbitrary: i result rule: less_induct)
  case less
  show ?case
  proof (cases "i < length m")
    case True
    then have "length m - (i + 1) < length m - i" "i + 1 \<le> length m" by simp_all
    note IH = less(1) [OF this, of "result + (if m ! i = c then 1 else 0)"]
    have pk: "peek m i = Some (m ! i)" using True by (rule peek_Some)
    have d: "drop i m = m ! i # drop (i + 1) m"
      using True by (simp add: Cons_nth_drop_Suc)
    show ?thesis
      unfolding count_char_tail.simps [of m c i] pk d [symmetric]
      using True IH by (simp add: d)
  next
    case False
    with less(2) show ?thesis by (subst count_char_tail.simps) simp
  qed
qed

lemma count_char_swar_eq:
  "i \<le> length m \<Longrightarrow>
   count_char_swar m c (le_u64 [c, c, c, c, c, c, c, c]) i result
     = Some (result + length (filter (\<lambda>b. b = c) (drop i m)))"
proof (induction "length m - i" arbitrary: i result rule: less_induct)
  case less
  let ?t = "le_u64 [c, c, c, c, c, c, c, c]"
  show ?case
  proof (cases "i + 8 \<le> length m")
    case True
    let ?hs = "take 8 (drop i m)"
    let ?mi = "char_indicators (le_u64 ?hs) ?t"
    from True have "length m - (i + 8) < length m - i" "i + 8 \<le> length m" by simp_all
    note IH = less(1) [OF this, of "result + popcountll ?mi"]
    have ld: "load_u64 m i = Some (le_u64 ?hs)" using True by (rule load_u64_Some)
    have "popcountll ?mi = length (filter (\<lambda>k. m ! (i + k) = c) [0..<8])"
      by (rule indicator_popcount) (rule slice_indicators [OF True])
    also have "\<dots> = length (filter (\<lambda>k. ?hs ! k = c) [0..<length ?hs])"
      using True by (intro arg_cong [where f = length] filter_cong) (simp_all add: slice_nth)
    also have "\<dots> = length (filter (\<lambda>b. b = c) ?hs)" by (rule length_filter_nth)
    finally have pc: "popcountll ?mi = length (filter (\<lambda>b. b = c) ?hs)" .
    have "drop i m = ?hs @ drop 8 (drop i m)"
      by (rule append_take_drop_id [symmetric])
    then have "drop i m = ?hs @ drop (i + 8) m"
      by (simp only: drop_drop add.commute)
    from arg_cong [OF this, of "\<lambda>xs. length (filter (\<lambda>b. b = c) xs)"]
    have "length (filter (\<lambda>b. b = c) (drop i m))
        = length (filter (\<lambda>b. b = c) ?hs) + length (filter (\<lambda>b. b = c) (drop (i + 8) m))"
      by simp
    with pc IH True show ?thesis
      unfolding count_char_swar.simps [of m c ?t i] ld by simp
  next
    case False
    with count_char_tail_eq [OF less(2), of c result] show ?thesis
      by (subst count_char_swar.simps) simp
  qed
qed

lemma count_char_head_eq:
  assumes t: "broadcast_char sc c = le_u64 [c, c, c, c, c, c, c, c]"
  shows "i \<le> length m \<Longrightarrow>
   count_char_head sc p m c i result = Some (result + length (filter (\<lambda>b. b = c) (drop i m)))"
proof (induction "length m - i" arbitrary: i result rule: less_induct)
  case less
  show ?case
  proof (cases "(p + i) mod 8 \<noteq> 0 \<and> i < length m")
    case True
    then have lt: "i < length m" by simp
    then have "length m - (i + 1) < length m - i" "i + 1 \<le> length m" by simp_all
    note IH = less(1) [OF this, of "result + (if m ! i = c then 1 else 0)"]
    have pk: "peek m i = Some (m ! i)" using lt by (rule peek_Some)
    have d: "drop i m = m ! i # drop (i + 1) m"
      using lt by (simp add: Cons_nth_drop_Suc)
    show ?thesis
      unfolding count_char_head.simps [of sc p m c i] pk
      using True IH by (simp add: d)
  next
    case False
    with count_char_swar_eq [OF less(2), of c result] show ?thesis
      unfolding count_char_head.simps [of sc p m c i] t by auto
  qed
qed

lemma strzl_naive_count_char_unsigned:
  "\<not> sc \<or> c < 0x80 \<Longrightarrow>
   strzl_naive_count_char sc h c = Some (length (filter (\<lambda>b. b = c) (hay_bytes h)))"
  using count_char_head_eq [OF broadcast_char_unsigned, of sc c 0 "hay_bytes h" "hay_ptr h" 0]
  by (simp add: strzl_naive_count_char_def)

subsection \<open>Finding\<close>

lemma first_index_eq:
  assumes "i \<le> length m" "\<forall>j<i. P (m ! j)" "i < length m \<Longrightarrow> \<not> P (m ! i)"
  shows "length (takeWhile P m) = i"
proof -
  have "takeWhile P m = take i m"
    using assms by (intro takeWhile_eq_take_P_nth) simp_all
  with assms(1) show ?thesis by simp
qed

lemma find_char_tail_eq:
  "i \<le> length m \<Longrightarrow> \<forall>j<i. m ! j \<noteq> c \<Longrightarrow>
   find_char_tail m c i = Some (length (takeWhile (\<lambda>b. b \<noteq> c) m))"
proof (induction "length m - i" arbitrary: i rule: less_induct)
  case less
  show ?case
  proof (cases "i < length m")
    case True
    have pk: "peek m i = Some (m ! i)" using True by (rule peek_Some)
    show ?thesis
    proof (cases "m ! i = c")
      case hit: True
      have "length (takeWhile (\<lambda>b. b \<noteq> c) m) = i"
        using less(2,3) hit by (intro first_index_eq) simp_all
      with hit show ?thesis
        unfolding find_char_tail.simps [of m c i] pk using True by simp
    next
      case miss: False
      from True have "length m - (i + 1) < length m - i" "i + 1 \<le> length m" by simp_all
      moreover have "\<forall>j<i + 1. m ! j \<noteq> c"
        using less(3) miss by (auto simp: less_Suc_eq)
      ultimately have "find_char_tail m c (i + 1) = Some (length (takeWhile (\<lambda>b. b \<noteq> c) m))"
        by (rule less(1))
      with miss True show ?thesis
        unfolding find_char_tail.simps [of m c i] pk by simp
    qed
  next
    case False
    with less(2) have i: "i = length m" by simp
    have "length (takeWhile (\<lambda>b. b \<noteq> c) m) = i"
      using less(2,3) i by (intro first_index_eq) simp_all
    with i show ?thesis by (subst find_char_tail.simps) simp
  qed
qed

lemma find_char_swar_eq:
  "i \<le> length m \<Longrightarrow> \<forall>j<i. m ! j \<noteq> c \<Longrightarrow>
   find_char_swar m c (le_u64 [c, c, c, c, c, c, c, c]) i
     = Some (length (takeWhile (\<lambda>b. b \<noteq> c) m))"
proof (induction "length m - i" arbitrary: i rule: less_induct)
  case less
  let ?t = "le_u64 [c, c, c, c, c, c, c, c]"
  show ?case
  proof (cases "i + 8 \<le> length m")
    case True
    let ?mi = "char_indicators (le_u64 (take 8 (drop i m))) ?t"
    have ld: "load_u64 m i = Some (le_u64 (take 8 (drop i m)))" using True by (rule load_u64_Some)
    note ind = slice_indicators [OF True, of c]
    show ?thesis
    proof (cases "?mi = 0")
      case zero: True
      with indicator_zero_iff [of ?mi "\<lambda>k. m ! (i + k) = c", OF ind]
      have none: "\<forall>k<8. m ! (i + k) \<noteq> c" by simp
      from True have "length m - (i + 8) < length m - i" "i + 8 \<le> length m" by simp_all
      moreover have "\<forall>j<i + 8. m ! j \<noteq> c"
      proof (intro allI impI)
        fix j assume j: "j < i + 8"
        show "m ! j \<noteq> c"
        proof (cases "j < i")
          case True with less(3) show ?thesis by simp
        next
          case False
          with j have "j - i < 8" "j = i + (j - i)" by simp_all
          with none show ?thesis by metis
        qed
      qed
      ultimately have "find_char_swar m c ?t (i + 8) = Some (length (takeWhile (\<lambda>b. b \<noteq> c) m))"
        by (rule less(1))
      with zero True show ?thesis
        unfolding find_char_swar.simps [of m c ?t i] ld by simp
    next
      case nz: False
      define k where "k = ctzll ?mi div 8"
      from indicator_ctz [of ?mi "\<lambda>k. m ! (i + k) = c", OF ind nz]
      have k: "k < 8" "m ! (i + k) = c" "\<forall>j<k. m ! (i + j) \<noteq> c"
        by (simp_all add: k_def)
      have "\<forall>j<i + k. m ! j \<noteq> c"
      proof (intro allI impI)
        fix j assume j: "j < i + k"
        show "m ! j \<noteq> c"
        proof (cases "j < i")
          case True with less(3) show ?thesis by simp
        next
          case False
          with j have "j - i < k" "j = i + (j - i)" by simp_all
          with k(3) show ?thesis by metis
        qed
      qed
      with k True have "length (takeWhile (\<lambda>b. b \<noteq> c) m) = i + k"
        by (intro first_index_eq) simp_all
      with nz True show ?thesis
        unfolding find_char_swar.simps [of m c ?t i] ld by (simp add: k_def)
    qed
  next
    case False
    with find_char_tail_eq [OF less(2,3)] show ?thesis
      by (subst find_char_swar.simps) simp
  qed
qed

lemma find_char_head_eq:
  assumes t: "broadcast_char sc c = le_u64 [c, c, c, c, c, c, c, c]"
  shows "i \<le> length m \<Longrightarrow> \<forall>j<i. m ! j \<noteq> c \<Longrightarrow>
   find_char_head sc p m c i = Some (length (takeWhile (\<lambda>b. b \<noteq> c) m))"
proof (induction "length m - i" arbitrary: i rule: less_induct)
  case less
  show ?case
  proof (cases "(p + i) mod 8 \<noteq> 0 \<and> i < length m")
    case True
    then have lt: "i < length m" by simp
    have pk: "peek m i = Some (m ! i)" using lt by (rule peek_Some)
    show ?thesis
    proof (cases "m ! i = c")
      case hit: True
      have "length (takeWhile (\<lambda>b. b \<noteq> c) m) = i"
        using less(2,3) hit by (intro first_index_eq) simp_all
      with hit show ?thesis
        unfolding find_char_head.simps [of sc p m c i] pk using True by simp
    next
      case miss: False
      from lt have "length m - (i + 1) < length m - i" "i + 1 \<le> length m" by simp_all
      moreover have "\<forall>j<i + 1. m ! j \<noteq> c"
        using less(3) miss by (auto simp: less_Suc_eq)
      ultimately have "find_char_head sc p m c (i + 1) = Some (length (takeWhile (\<lambda>b. b \<noteq> c) m))"
        by (rule less(1))
      with miss True show ?thesis
        unfolding find_char_head.simps [of sc p m c i] pk by simp
    qed
  next
    case False
    with find_char_swar_eq [OF less(2,3)] show ?thesis
      unfolding find_char_head.simps [of sc p m c i] t by auto
  qed
qed

lemma strzl_naive_find_char_unsigned:
  "\<not> sc \<or> c < 0x80 \<Longrightarrow>
   strzl_naive_find_char sc h c = Some (length (takeWhile (\<lambda>b. b \<noteq> c) (hay_bytes h)))"
  using find_char_head_eq [OF broadcast_char_unsigned, of sc c 0 "hay_bytes h" "hay_ptr h"]
  by (simp add: strzl_naive_find_char_def)


lemma template_2chars_unsigned:
  assumes "\<not> sc \<or> (n0 < 0x80 \<and> n1 < 0x80)"
  shows "template_2chars sc n0 n1 = le_u64 [n0, n1, n0, n1, n0, n1, n0, n1]"
proof -
  have c: "char_to_u64 sc n0 = ucast n0" "char_to_u64 sc n1 = ucast n1"
    using assms by (auto intro: char_to_u64_unsigned)
  show ?thesis
    unfolding template_2chars_def c Let_def
    by (rule bit_word_eqI) (auto simp: bit_simps)
qed

lemma template_3chars_unsigned:
  assumes "\<not> sc \<or> (n0 < 0x80 \<and> n1 < 0x80 \<and> n2 < 0x80)"
  shows "template_3chars sc n0 n1 n2 = le_u64 [0, 0, n0, n1, n2, n0, n1, n2]"
proof -
  have c: "char_to_u64 sc n0 = ucast n0" "char_to_u64 sc n1 = ucast n1"
    "char_to_u64 sc n2 = ucast n2"
    using assms by (auto intro: char_to_u64_unsigned)
  show ?thesis
    unfolding template_3chars_def c Let_def
    by (rule bit_word_eqI) (auto simp: bit_simps)
qed

lemma template_4chars_unsigned:
  assumes "\<not> sc \<or> (n0 < 0x80 \<and> n1 < 0x80 \<and> n2 < 0x80 \<and> n3 < 0x80)"
  shows "template_4chars sc n0 n1 n2 n3 = le_u64 [n0, n1, n2, n3, n0, n1, n2, n3]"
proof -
  have c: "char_to_u64 sc n0 = ucast n0" "char_to_u64 sc n1 = ucast n1"
    "char_to_u64 sc n2 = ucast n2" "char_to_u64 sc n3 = ucast n3"
    using assms by (auto intro: char_to_u64_unsigned)
  show ?thesis
    unfolding template_4chars_def c Let_def
    by (rule bit_word_eqI) (auto simp: bit_simps)
qed

lemma push_bit_8_le_u64:
  "length hs = 8 \<Longrightarrow> push_bit 8 (le_u64 hs) = le_u64 (0 # take 7 hs)"
  by (rule bit_word_eqI) (auto simp: bit_push_bit_iff bit_le_u64 nth_Cons' le_div_geq le_mod_geq
      split: if_splits)

lemma push_bit_16_le_u64:
  "length hs = 8 \<Longrightarrow> push_bit 16 (le_u64 hs) = le_u64 (0 # 0 # take 6 hs)"
  by (rule bit_word_eqI) (auto simp: bit_push_bit_iff bit_le_u64 nth_Cons' le_div_geq le_mod_geq
      split: if_splits)


lemma bit_fold_chain:
  fixes x :: u64
  defines "y1 \<equiv> x AND drop_bit 1 x"
  defines "y2 \<equiv> y1 AND drop_bit 2 y1"
  defines "y3 \<equiv> y2 AND drop_bit 4 y2"
  defines "y4 \<equiv> y3 AND drop_bit 8 y3"
  defines "y5 \<equiv> y4 AND drop_bit 16 y4"
  shows "bit y3 n \<longleftrightarrow> (\<forall>j<8. bit x (n + j))"
    and "bit y4 n \<longleftrightarrow> (\<forall>j<16. bit x (n + j))"
    and "bit y5 n \<longleftrightarrow> (\<forall>j<32. bit x (n + j))"
proof -
  have 0: "bit x k \<longleftrightarrow> (\<forall>j<1. bit x (k + j))" for k by simp
  have 1: "bit y1 k \<longleftrightarrow> (\<forall>j<2. bit x (k + j))" for k
    unfolding y1_def using fold_step [of x 1 x k, OF 0] by simp
  have 2: "bit y2 k \<longleftrightarrow> (\<forall>j<4. bit x (k + j))" for k
    unfolding y2_def using fold_step [of y1 2 x k, OF 1] by simp
  have 3: "bit y3 k \<longleftrightarrow> (\<forall>j<8. bit x (k + j))" for k
    unfolding y3_def using fold_step [of y2 4 x k, OF 2] by simp
  have 4: "bit y4 k \<longleftrightarrow> (\<forall>j<16. bit x (k + j))" for k
    unfolding y4_def using fold_step [of y3 8 x k, OF 3] by simp
  have 5: "bit y5 k \<longleftrightarrow> (\<forall>j<32. bit x (k + j))" for k
    unfolding y5_def using fold_step [of y4 16 x k, OF 4] by simp
  show "bit y3 n \<longleftrightarrow> (\<forall>j<8. bit x (n + j))" by (rule 3)
  show "bit y4 n \<longleftrightarrow> (\<forall>j<16. bit x (n + j))" by (rule 4)
  show "bit y5 n \<longleftrightarrow> (\<forall>j<32. bit x (n + j))" by (rule 5)
qed

lemma bit_fold16: "bit (fold16 x) n \<longleftrightarrow> (\<forall>j<16. bit x (n + j))"
  unfolding fold16_def Let_def by (rule bit_fold_chain(2))

lemma bit_mask_0_32_iff: "bit (0x0000000100000001 :: u64) n \<longleftrightarrow> n = 0 \<or> n = 32"
  by (rule bit_mask_0_32)

lemma bit_fold32: "bit (fold32 x) n \<longleftrightarrow> (n = 0 \<or> n = 32) \<and> (\<forall>j<32. bit x (n + j))"
proof -
  define y where "y = (let x = x AND drop_bit 1 x; x = x AND drop_bit 2 x; x = x AND drop_bit 4 x;
    x = x AND drop_bit 8 x; x = x AND drop_bit 16 x in x)"
  have f: "fold32 x = y AND 0x0000000100000001"
    by (simp only: fold32_def y_def Let_def)
  have "bit y n \<longleftrightarrow> (\<forall>j<32. bit x (n + j))"
    unfolding y_def Let_def by (rule bit_fold_chain(3))
  moreover have "bit (y AND 0x0000000100000001) n \<longleftrightarrow> bit y n \<and> bit (0x0000000100000001 :: u64) n"
    by (rule bit_and_iff)
  ultimately show ?thesis by (simp only: f bit_mask_0_32) blast
qed

lemma bit_mask_16_40: "bit (0x0000010000010000 :: u64) n \<longleftrightarrow> n = 16 \<or> n = 40"
proof (cases "n < 64")
  case True
  have "\<forall>k \<in> set [0..<64]. bit (0x0000010000010000 :: u64) k = (k = 16 \<or> k = 40)"
    by code_simp
  with True show ?thesis by simp
next
  case False
  then show ?thesis by (auto dest: bit_imp_le_length)
qed

lemma bit_mask_even: "bit (0x0001000100010001 :: u64) n \<longleftrightarrow> n = 0 \<or> n = 16 \<or> n = 32 \<or> n = 48"
proof (cases "n < 64")
  case True
  have "\<forall>k \<in> set [0..<64]. bit (0x0001000100010001 :: u64) k = (k = 0 \<or> k = 16 \<or> k = 32 \<or> k = 48)"
    by code_simp
  with True show ?thesis by simp
next
  case False
  then show ?thesis by (auto dest: bit_imp_le_length)
qed

lemma bit_mask_odd: "bit (0x0001000100010000 :: u64) n \<longleftrightarrow> n = 16 \<or> n = 32 \<or> n = 48"
proof (cases "n < 64")
  case True
  have "\<forall>k \<in> set [0..<64]. bit (0x0001000100010000 :: u64) k = (k = 16 \<or> k = 32 \<or> k = 48)"
    by code_simp
  with True show ?thesis by simp
next
  case False
  then show ?thesis by (auto dest: bit_imp_le_length)
qed

lemma bit_fold24:
  "bit (fold24 x) n \<longleftrightarrow> (n = 16 \<or> n = 40) \<and> (\<forall>j<24. bit x (n + j))"
proof -
  define y where "y = (let x = x AND drop_bit 1 x; x = x AND drop_bit 2 x; x = x AND drop_bit 4 x in x)"
  have f: "fold24 x = drop_bit 16 y AND drop_bit 8 y AND drop_bit 0 y AND 0x0000010000010000"
    by (simp only: fold24_def y_def Let_def)
  have y: "bit y k \<longleftrightarrow> (\<forall>j<8. bit x (k + j))" for k
    unfolding y_def Let_def by (rule bit_fold_chain(1))
  have "bit (fold24 x) n \<longleftrightarrow> bit y (16 + n) \<and> bit y (8 + n) \<and> bit y n \<and> (n = 16 \<or> n = 40)"
    unfolding f by (simp add: bit_and_iff bit_drop_bit_eq bit_mask_16_40 del: bit_numeral_word_iff)
  moreover have "bit y (16 + n) \<and> bit y (8 + n) \<and> bit y n \<longleftrightarrow> (\<forall>j<24. bit x (n + j))"
  proof (intro iffI allI impI conjI)
    fix j :: nat assume h: "bit y (16 + n) \<and> bit y (8 + n) \<and> bit y n" and j: "j < 24"
    consider "j < 8" | "8 \<le> j" "j < 16" | "16 \<le> j" by linarith
    then show "bit x (n + j)"
    proof cases
      case 1 with h y [of n] show ?thesis by blast
    next
      case 2
      then have "j - 8 < 8" "8 + n + (j - 8) = n + j" by simp_all
      with h y [of "8 + n"] show ?thesis by metis
    next
      case 3
      with j have "j - 16 < 8" "16 + n + (j - 16) = n + j" by simp_all
      with h y [of "16 + n"] show ?thesis by metis
    qed
  next
    assume h: "\<forall>j<24. bit x (n + j)"
    show "bit y (16 + n)" unfolding y
    proof (intro allI impI)
      fix j :: nat assume "j < 8"
      then have "16 + j < 24" by simp
      with h have "bit x (n + (16 + j))" by blast
      then show "bit x (16 + n + j)" by (simp add: add.commute add.left_commute)
    qed
    show "bit y (8 + n)" unfolding y
    proof (intro allI impI)
      fix j :: nat assume "j < 8"
      then have "8 + j < 24" by simp
      with h have "bit x (n + (8 + j))" by blast
      then show "bit x (8 + n + j)" by (simp add: add.commute add.left_commute)
    qed
    show "bit y n" unfolding y using h by simp
  qed
  ultimately show ?thesis by blast
qed

lemma bits_range_eq:
  assumes "length xs = 8" "length ts = 8" "a + L \<le> 8" "b + L \<le> 8"
  shows "(\<forall>j<8 * L. bit (le_u64 xs) (8 * a + j) \<longleftrightarrow> bit (le_u64 ts) (8 * b + j))
         \<longleftrightarrow> (\<forall>q<L. xs ! (a + q) = ts ! (b + q))"
proof (rule iffI; rule allI; rule impI)
  fix q assume h: "\<forall>j<8 * L. bit (le_u64 xs) (8 * a + j) \<longleftrightarrow> bit (le_u64 ts) (8 * b + j)"
    and q: "q < L"
  show "xs ! (a + q) = ts ! (b + q)"
    unfolding byte_eq_iff_bits
  proof (rule allI; rule impI)
    fix j :: nat assume j: "j < 8"
    with q have "8 * q + j < 8 * L" by simp
    with h have "bit (le_u64 xs) (8 * a + (8 * q + j)) \<longleftrightarrow> bit (le_u64 ts) (8 * b + (8 * q + j))"
      by blast
    moreover have "8 * a + (8 * q + j) = 8 * (a + q) + j" "8 * b + (8 * q + j) = 8 * (b + q) + j"
      by simp_all
    ultimately have "bit (le_u64 xs) (8 * (a + q) + j) \<longleftrightarrow> bit (le_u64 ts) (8 * (b + q) + j)"
      by (simp only:)
    moreover have "bit (le_u64 xs) (8 * (a + q) + j) \<longleftrightarrow> bit (xs ! (a + q)) j"
      using assms q j by (intro byte_of_le_u64) simp_all
    moreover have "bit (le_u64 ts) (8 * (b + q) + j) \<longleftrightarrow> bit (ts ! (b + q)) j"
      using assms q j by (intro byte_of_le_u64) simp_all
    ultimately show "bit (xs ! (a + q)) j \<longleftrightarrow> bit (ts ! (b + q)) j"
      by (simp only:)
  qed
next
  fix j :: nat assume h: "\<forall>q<L. xs ! (a + q) = ts ! (b + q)" and j: "j < 8 * L"
  define q where "q = j div 8"
  define r where "r = j mod 8"
  have q: "q < L" and r: "r < 8" and jj: "j = 8 * q + r"
    using j by (simp_all add: q_def r_def less_mult_imp_div_less mult.commute)
  have "bit (le_u64 xs) (8 * (a + q) + r) \<longleftrightarrow> bit (xs ! (a + q)) r"
    using assms q r by (intro byte_of_le_u64) simp_all
  moreover have "bit (le_u64 ts) (8 * (b + q) + r) \<longleftrightarrow> bit (ts ! (b + q)) r"
    using assms q r by (intro byte_of_le_u64) simp_all
  ultimately have "bit (le_u64 xs) (8 * (a + q) + r) \<longleftrightarrow> bit (le_u64 ts) (8 * (b + q) + r)"
    using h q by simp
  moreover have "8 * a + j = 8 * (a + q) + r" "8 * b + j = 8 * (b + q) + r"
    by (simp_all add: jj)
  ultimately show "bit (le_u64 xs) (8 * a + j) \<longleftrightarrow> bit (le_u64 ts) (8 * b + j)"
    by (simp only:)
qed

lemma range_match:
  assumes "length xs = 8" "length ts = 8" "a + L \<le> 8"
  shows "(\<forall>j<8 * L. bit (NOT (le_u64 xs XOR le_u64 ts)) (8 * a + j))
         \<longleftrightarrow> (\<forall>q<L. xs ! (a + q) = ts ! (a + q))"
proof -
  have "8 * a + j < 64" if "j < 8 * L" for j using that assms(3) by simp
  then have "(\<forall>j<8 * L. bit (NOT (le_u64 xs XOR le_u64 ts)) (8 * a + j))
      \<longleftrightarrow> (\<forall>j<8 * L. bit (le_u64 xs) (8 * a + j) \<longleftrightarrow> bit (le_u64 ts) (8 * a + j))"
    by (auto simp: bit_not_iff bit_xor_iff)
  also have "\<dots> \<longleftrightarrow> (\<forall>q<L. xs ! (a + q) = ts ! (a + q))"
    using assms by (intro bits_range_eq) simp_all
  finally show ?thesis .
qed


lemma ex_less_7: "(\<exists>k<7. P k) \<longleftrightarrow> P 0 \<or> P 1 \<or> P 2 \<or> P 3 \<or> P 4 \<or> P 5 \<or> P (6::nat)"
proof -
  have "{..<7::nat} = {0, 1, 2, 3, 4, 5, 6}" by auto
  then have "(\<exists>k<7. P k) \<longleftrightarrow> (\<exists>k \<in> {0, 1, 2, 3, 4, 5, 6}. P k)"
    by (metis lessThan_iff)
  then show ?thesis by simp
qed

lemma all_less_2: "(\<forall>q<2. P q) \<longleftrightarrow> P 0 \<and> P (1::nat)"
  by (auto simp: less_2_cases_iff)

lemma range_match_2:
  assumes "length xs = 8" "length ts = 8" "a + 2 \<le> 8"
  shows "(\<forall>j<16. bit (NOT (le_u64 xs XOR le_u64 ts)) (8 * a + j))
         \<longleftrightarrow> xs ! a = ts ! a \<and> xs ! (a + 1) = ts ! (a + 1)"
  using range_match [OF assms] by (simp add: all_less_2)

lemma bit_indicators_2chars:
  fixes n0 n1 :: byte
  assumes hs: "length hs = 8"
  defines "ts \<equiv> [n0, n1, n0, n1, n0, n1, n0, n1]"
  shows "bit (even_indicators (le_u64 hs) (le_u64 ts)
              OR drop_bit 8 (odd_indicators (le_u64 hs) (le_u64 ts))) n
         \<longleftrightarrow> (\<exists>k<7. n = 8 * k \<and> hs ! k = n0 \<and> hs ! (k + 1) = n1)"
proof -
  define N where "N = NOT (le_u64 hs XOR le_u64 ts)"
  define hs' where "hs' = 0 # take 7 hs"
  define N' where "N' = NOT (le_u64 hs' XOR le_u64 ts)"
  have lt: "length ts = 8" and lh': "length hs' = 8" using hs by (simp_all add: ts_def hs'_def)
  define Pe where "Pe m \<longleftrightarrow> (\<forall>j<16. bit N (m + j))" for m
  define Po where "Po m \<longleftrightarrow> (\<forall>j<16. bit N' (m + j))" for m
  have E: "bit (even_indicators (le_u64 hs) (le_u64 ts)) m
      \<longleftrightarrow> (m = 0 \<or> m = 16 \<or> m = 32 \<or> m = 48) \<and> Pe m" for m
    unfolding even_indicators_def N_def [symmetric] Pe_def
    by (simp only: bit_and_iff bit_fold16 bit_mask_even) blast
  have O: "bit (odd_indicators (le_u64 hs) (le_u64 ts)) m
      \<longleftrightarrow> (m = 16 \<or> m = 32 \<or> m = 48) \<and> Po m" for m
    unfolding odd_indicators_def push_bit_8_le_u64 [OF hs] hs'_def [symmetric] N'_def [symmetric]
      Po_def
    by (simp only: bit_and_iff bit_fold16 bit_mask_odd) blast
  have R: "Pe (8 * a) \<longleftrightarrow> hs ! a = ts ! a \<and> hs ! (a + 1) = ts ! (a + 1)"
    if "a + 2 \<le> 8" for a
    unfolding N_def Pe_def using hs lt that by (rule range_match_2)
  have R': "Po (8 * a) \<longleftrightarrow> hs' ! a = ts ! a \<and> hs' ! (a + 1) = ts ! (a + 1)"
    if "a + 2 \<le> 8" for a
    unfolding N'_def Po_def using lh' lt that by (rule range_match_2)
  have e0: "Pe 0 \<longleftrightarrow> hs ! 0 = n0 \<and> hs ! 1 = n1"
    using R [of 0] by (simp add: ts_def)
  have e2: "Pe 16 \<longleftrightarrow> hs ! 2 = n0 \<and> hs ! 3 = n1"
    using R [of 2] by (simp add: ts_def)
  have e4: "Pe 32 \<longleftrightarrow> hs ! 4 = n0 \<and> hs ! 5 = n1"
    using R [of 4] by (simp add: ts_def)
  have e6: "Pe 48 \<longleftrightarrow> hs ! 6 = n0 \<and> hs ! 7 = n1"
    using R [of 6] by (simp add: ts_def)
  have o1: "Po 16 \<longleftrightarrow> hs ! 1 = n0 \<and> hs ! 2 = n1"
    using R' [of 2] hs by (simp add: ts_def hs'_def)
  have o3: "Po 32 \<longleftrightarrow> hs ! 3 = n0 \<and> hs ! 4 = n1"
    using R' [of 4] hs by (simp add: ts_def hs'_def)
  have o5: "Po 48 \<longleftrightarrow> hs ! 5 = n0 \<and> hs ! 6 = n1"
    using R' [of 6] hs by (simp add: ts_def hs'_def)
  have "bit (even_indicators (le_u64 hs) (le_u64 ts)
              OR drop_bit 8 (odd_indicators (le_u64 hs) (le_u64 ts))) n
      \<longleftrightarrow> bit (even_indicators (le_u64 hs) (le_u64 ts)) n
          \<or> bit (odd_indicators (le_u64 hs) (le_u64 ts)) (8 + n)"
    by (simp add: bit_or_iff bit_drop_bit_eq)
  also have "\<dots> \<longleftrightarrow> (n = 0 \<and> hs ! 0 = n0 \<and> hs ! 1 = n1)
      \<or> (n = 8 \<and> hs ! 1 = n0 \<and> hs ! 2 = n1)
      \<or> (n = 16 \<and> hs ! 2 = n0 \<and> hs ! 3 = n1)
      \<or> (n = 24 \<and> hs ! 3 = n0 \<and> hs ! 4 = n1)
      \<or> (n = 32 \<and> hs ! 4 = n0 \<and> hs ! 5 = n1)
      \<or> (n = 40 \<and> hs ! 5 = n0 \<and> hs ! 6 = n1)
      \<or> (n = 48 \<and> hs ! 6 = n0 \<and> hs ! 7 = n1)"
  proof -
    consider "n = 0" | "n = 8" | "n = 16" | "n = 24" | "n = 32" | "n = 40" | "n = 48"
      | "n \<noteq> 0" "n \<noteq> 8" "n \<noteq> 16" "n \<noteq> 24" "n \<noteq> 32" "n \<noteq> 40" "n \<noteq> 48"
      by blast
    then show ?thesis
    proof cases
      case 1 then show ?thesis unfolding E O by (simp add: e0)
    next
      case 2 then show ?thesis unfolding E O by (simp add: o1)
    next
      case 3 then show ?thesis unfolding E O by (simp add: e2)
    next
      case 4 then show ?thesis unfolding E O by (simp add: o3)
    next
      case 5 then show ?thesis unfolding E O by (simp add: e4)
    next
      case 6 then show ?thesis unfolding E O by (simp add: o5)
    next
      case 7 then show ?thesis unfolding E O by (simp add: e6)
    next
      case 8 then show ?thesis unfolding E O by simp
    qed
  qed
  also have "\<dots> \<longleftrightarrow> (\<exists>k<7. n = 8 * k \<and> hs ! k = n0 \<and> hs ! (k + 1) = n1)"
    unfolding ex_less_7 by (simp add: numeral_2_eq_2 [symmetric])
  finally show ?thesis .
qed


lemma add_eq_0_small:
  fixes x y :: u64
  assumes "x \<le> 0x7FFFFFFFFFFFFFFF" "y \<le> 0x7FFFFFFFFFFFFFFF"
  shows "x + y = 0 \<longleftrightarrow> x = 0 \<and> y = 0"
proof
  assume s: "x + y = 0"
  from assms have "unat x \<le> 0x7FFFFFFFFFFFFFFF" "unat y \<le> 0x7FFFFFFFFFFFFFFF"
    by (simp_all add: word_le_nat_alt)
  then have "unat x + unat y < 2 ^ LENGTH(64)" by simp
  then have "unat (x + y) = unat x + unat y" by (simp only: unat_add_lem)
  with s have "unat x = 0" "unat y = 0" by simp_all
  then show "x = 0 \<and> y = 0" by (simp add: unat_eq_0)
qed simp

lemma indicators_2chars_test:
  "even_indicators h t + odd_indicators h t \<noteq> 0
   \<longleftrightarrow> even_indicators h t OR drop_bit 8 (odd_indicators h t) \<noteq> 0"
proof -
  let ?e = "even_indicators h t" and ?o = "odd_indicators h t"
  have "?e \<le> 0x0001000100010001" unfolding even_indicators_def by (rule word_and_le1)
  then have e: "?e \<le> 0x7FFFFFFFFFFFFFFF" by (rule order_trans) simp
  have "?o \<le> 0x0001000100010000" unfolding odd_indicators_def by (rule word_and_le1)
  then have o: "?o \<le> 0x7FFFFFFFFFFFFFFF" by (rule order_trans) simp
  have ob: "8 \<le> n" if "bit ?o n" for n
    using that unfolding odd_indicators_def
    by (auto simp add: bit_and_iff bit_mask_odd simp del: bit_numeral_word_iff)
  have "drop_bit 8 ?o = 0 \<longleftrightarrow> ?o = 0"
  proof
    assume z: "drop_bit 8 ?o = 0"
    show "?o = 0"
    proof (rule bit_word_eqI)
      fix n assume "n < LENGTH(64)"
      show "bit ?o n \<longleftrightarrow> bit (0 :: u64) n"
      proof (cases "bit ?o n")
        case True
        with ob have "bit ?o (8 + (n - 8))" by simp
        then have "bit (drop_bit 8 ?o) (n - 8)" by (simp add: bit_drop_bit_eq)
        with z show ?thesis by simp
      qed simp
    qed
  qed simp
  then have "?e OR drop_bit 8 ?o = 0 \<longleftrightarrow> ?e = 0 \<and> ?o = 0"
    by (simp add: or_eq_0_iff)
  with add_eq_0_small [OF e o] show ?thesis by simp
qed


lemma occurs_at_nth:
  assumes "p + length ns \<le> length m"
  shows "occurs_at m ns p \<longleftrightarrow> (\<forall>q<length ns. m ! (p + q) = ns ! q)"
proof -
  have "length (take (length ns) (drop p m)) = length ns" using assms by simp
  then show ?thesis
    unfolding occurs_at_def using assms by (auto simp: list_eq_iff_nth_eq)
qed

lemma occurs_at_short: "ns \<noteq> [] \<Longrightarrow> length m < p + length ns \<Longrightarrow> \<not> occurs_at m ns p"
  using occurs_at_bound [of m ns p] by auto

lemma occurs_at_2:
  "length ns = 2 \<Longrightarrow> p + 2 \<le> length m \<Longrightarrow>
   occurs_at m ns p \<longleftrightarrow> m ! p = ns ! 0 \<and> m ! (p + 1) = ns ! 1"
  using occurs_at_nth [of p ns m] by (simp add: all_less_2)

lemma all_less_3: "(\<forall>q<3. P q) \<longleftrightarrow> P 0 \<and> P 1 \<and> P (2::nat)"
proof -
  have "{..<3::nat} = {0, 1, 2}" by auto
  then have "(\<forall>q<3. P q) \<longleftrightarrow> (\<forall>q \<in> {0, 1, 2}. P q)" by (metis lessThan_iff)
  then show ?thesis by simp
qed

lemma all_less_4: "(\<forall>q<4. P q) \<longleftrightarrow> P 0 \<and> P 1 \<and> P 2 \<and> P (3::nat)"
proof -
  have "{..<4::nat} = {0, 1, 2, 3}" by auto
  then have "(\<forall>q<4. P q) \<longleftrightarrow> (\<forall>q \<in> {0, 1, 2, 3}. P q)" by (metis lessThan_iff)
  then show ?thesis by simp
qed

lemma occurs_at_3:
  "length ns = 3 \<Longrightarrow> p + 3 \<le> length m \<Longrightarrow>
   occurs_at m ns p \<longleftrightarrow> m ! p = ns ! 0 \<and> m ! (p + 1) = ns ! 1 \<and> m ! (p + 2) = ns ! 2"
  using occurs_at_nth [of p ns m] by (simp add: all_less_3)

lemma occurs_at_4:
  "length ns = 4 \<Longrightarrow> p + 4 \<le> length m \<Longrightarrow>
   occurs_at m ns p \<longleftrightarrow> m ! p = ns ! 0 \<and> m ! (p + 1) = ns ! 1 \<and> m ! (p + 2) = ns ! 2
                          \<and> m ! (p + 3) = ns ! 3"
  using occurs_at_nth [of p ns m] by (simp add: all_less_4)

text \<open>The logical core of every scanning loop.\<close>

lemma scan_hit:
  fixes i k :: nat
  assumes "\<forall>j<i. \<not> M j" "M (i + k)" "\<forall>j<k. \<not> M (i + j)"
  shows "\<forall>j<i + k. \<not> M j"
proof (intro allI impI)
  fix j assume j: "j < i + k"
  show "\<not> M j"
  proof (cases "j < i")
    case True with assms(1) show ?thesis by simp
  next
    case False
    with j have "j - i < k" "j = i + (j - i)" by simp_all
    with assms(3) show ?thesis by metis
  qed
qed

lemma scan_miss:
  fixes i w :: nat
  assumes "\<forall>j<i. \<not> M j" "\<forall>j<w. \<not> M (i + j)"
  shows "\<forall>j<i + w. \<not> M (j::nat)"
proof (intro allI impI)
  fix j assume j: "j < i + w"
  show "\<not> M j"
  proof (cases "j < i")
    case True with assms(1) show ?thesis by simp
  next
    case False
    with j have "j - i < w" "j = i + (j - i)" by simp_all
    with assms(2) show ?thesis by metis
  qed
qed

lemma first_match_end:
  assumes "ns \<noteq> []" "\<forall>j<i. \<not> occurs_at m ns j" "length m < i + length ns"
  shows "first_match m ns (length m)"
proof -
  have "\<not> occurs_at m ns j" for j
  proof (cases "j < i")
    case True with assms(2) show ?thesis by simp
  next
    case False
    with assms(3) have "length m < j + length ns" by simp
    with assms(1) show ?thesis by (rule occurs_at_short)
  qed
  then show ?thesis by (simp add: first_match_def)
qed

lemma first_match_hit:
  assumes "ns \<noteq> []" "\<forall>j<p. \<not> occurs_at m ns j" "occurs_at m ns p"
  shows "first_match m ns p"
  using assms occurs_at_bound [of m ns p] by (cases ns) (auto simp: first_match_def)

subsection \<open>The 2-byte kernel\<close>

lemma find_2chars_tail_first:
  assumes ns: "length ns = 2"
  shows "\<forall>j<i. \<not> occurs_at m ns j \<Longrightarrow>
         \<exists>r. find_2chars_tail m ns i = Some r \<and> first_match m ns r"
proof (induction "length m - i" arbitrary: i rule: less_induct)
  case less
  have ne: "ns \<noteq> []" using ns by auto
  show ?case
  proof (cases "i + 2 \<le> length m")
    case True
    have eq: "and_also (char_eq m i ns 0) (char_eq m (i + 1) ns 1)
                = Some (m ! i = ns ! 0 \<and> m ! (i + 1) = ns ! 1)"
      using True ns by (intro chars2_eq_Some) simp_all
    have occ: "occurs_at m ns i \<longleftrightarrow> m ! i = ns ! 0 \<and> m ! (i + 1) = ns ! 1"
      using ns True by (rule occurs_at_2)
    show ?thesis
    proof (cases "occurs_at m ns i")
      case hit: True
      have "find_2chars_tail m ns i = Some i"
        unfolding find_2chars_tail.simps [of m ns i] eq occ [symmetric] using True hit by simp
      with first_match_hit [OF ne less(2) hit] show ?thesis by simp
    next
      case miss: False
      from True have "length m - (i + 1) < length m - i" by simp
      moreover have "\<forall>j<i + 1. \<not> occurs_at m ns j"
        using less(2) miss by (auto simp: less_Suc_eq)
      ultimately have "\<exists>r. find_2chars_tail m ns (i + 1) = Some r \<and> first_match m ns r"
        by (rule less(1))
      moreover have "find_2chars_tail m ns i = find_2chars_tail m ns (i + 1)"
        unfolding find_2chars_tail.simps [of m ns i] eq occ [symmetric] using True miss by simp
      ultimately show ?thesis by simp
    qed
  next
    case False
    then have "find_2chars_tail m ns i = Some (length m)"
      by (subst find_2chars_tail.simps) simp
    moreover from False ns have "length m < i + length ns" by simp
    note first_match_end [OF ne less(2) this]
    ultimately show ?thesis by simp
  qed
qed

lemma find_2chars_swar_first:
  assumes ns: "length ns = 2"
    and t: "t = le_u64 [ns ! 0, ns ! 1, ns ! 0, ns ! 1, ns ! 0, ns ! 1, ns ! 0, ns ! 1]"
  shows "\<forall>j<i. \<not> occurs_at m ns j \<Longrightarrow>
         \<exists>r. find_2chars_swar m ns t i = Some r \<and> first_match m ns r"
proof (induction "length m - i" arbitrary: i rule: less_induct)
  case less
  have ne: "ns \<noteq> []" using ns by auto
  let ?t = t
  show ?case
  proof (cases "i + 8 \<le> length m")
    case True
    let ?hs = "take 8 (drop i m)"
    let ?mi = "even_indicators (le_u64 ?hs) ?t OR drop_bit 8 (odd_indicators (le_u64 ?hs) ?t)"
    have ld: "load_u64 m i = Some (le_u64 ?hs)" using True by (rule load_u64_Some)
    have lh: "length ?hs = 8" using True by simp
    have ind: "bit ?mi n \<longleftrightarrow> (\<exists>k<8. n = 8 * k \<and> (k < 7 \<and> occurs_at m ns (i + k)))" for n
    proof -
      have "bit ?mi n \<longleftrightarrow> (\<exists>k<7. n = 8 * k \<and> ?hs ! k = ns ! 0 \<and> ?hs ! (k + 1) = ns ! 1)"
        unfolding t using lh by (rule bit_indicators_2chars)
      also have "\<dots> \<longleftrightarrow> (\<exists>k<7. n = 8 * k \<and> occurs_at m ns (i + k))"
      proof (intro ex_cong1 conj_cong refl)
        fix k :: nat assume k: "k < 7"
        with True have "occurs_at m ns (i + k) \<longleftrightarrow> m ! (i + k) = ns ! 0 \<and> m ! (i + k + 1) = ns ! 1"
          by (intro occurs_at_2 [OF ns]) simp
        with True k show "(?hs ! k = ns ! 0 \<and> ?hs ! (k + 1) = ns ! 1) \<longleftrightarrow> occurs_at m ns (i + k)"
          by (simp add: add.assoc)
      qed
      also have "\<dots> \<longleftrightarrow> (\<exists>k<8. n = 8 * k \<and> (k < 7 \<and> occurs_at m ns (i + k)))" by auto
      finally show ?thesis .
    qed
    have test: "even_indicators (le_u64 ?hs) ?t + odd_indicators (le_u64 ?hs) ?t \<noteq> 0 \<longleftrightarrow> ?mi \<noteq> 0"
      by (rule indicators_2chars_test)
    show ?thesis
    proof (cases "?mi = 0")
      case zero: True
      with indicator_zero_iff [of ?mi "\<lambda>k. k < 7 \<and> occurs_at m ns (i + k)", OF ind]
      have "\<forall>k<7. \<not> occurs_at m ns (i + k)" by simp
      with less(2) have "\<forall>j<i + 7. \<not> occurs_at m ns j" by (rule scan_miss)
      moreover from True have "length m - (i + 7) < length m - i" by simp
      ultimately have "\<exists>r. find_2chars_swar m ns ?t (i + 7) = Some r \<and> first_match m ns r"
        by (intro less(1))
      moreover have "find_2chars_swar m ns ?t i = find_2chars_swar m ns ?t (i + 7)"
        unfolding find_2chars_swar.simps [of m ns ?t i] ld using True zero test by simp
      ultimately show ?thesis by simp
    next
      case nz: False
      define k where "k = ctzll ?mi div 8"
      from indicator_ctz [of ?mi "\<lambda>k. k < 7 \<and> occurs_at m ns (i + k)", OF ind nz]
      have k: "k < 7" "occurs_at m ns (i + k)" "\<forall>j<k. \<not> occurs_at m ns (i + j)"
        by (auto simp: k_def)
      from less(2) k(2,3) have "\<forall>j<i + k. \<not> occurs_at m ns j" by (rule scan_hit)
      from first_match_hit [OF ne this k(2)] have "first_match m ns (i + k)" .
      moreover have "find_2chars_swar m ns ?t i = Some (i + k)"
        unfolding find_2chars_swar.simps [of m ns ?t i] ld using True nz test by (simp add: k_def)
      ultimately show ?thesis by simp
    qed
  next
    case False
    with find_2chars_tail_first [OF ns less(2)] show ?thesis
      by (subst find_2chars_swar.simps) simp
  qed
qed

lemma strzl_naive_find_2chars_first:
  assumes ns: "length ns = 2" and u: "\<not> sc \<or> (\<forall>b \<in> set ns. b < 0x80)"
  shows "\<exists>r. strzl_naive_find_2chars sc h ns = Some r \<and> first_match (hay_bytes h) ns r"
proof -
  have pk: "peek ns 0 = Some (ns ! 0)" "peek ns 1 = Some (ns ! 1)"
    using ns by (simp_all add: peek_def)
  have "ns ! 0 \<in> set ns" "ns ! 1 \<in> set ns" using ns by simp_all
  with u have "\<not> sc \<or> (ns ! 0 < 0x80 \<and> ns ! 1 < 0x80)" by blast
  then have t: "template_2chars sc (ns ! 0) (ns ! 1)
      = le_u64 [ns ! 0, ns ! 1, ns ! 0, ns ! 1, ns ! 0, ns ! 1, ns ! 0, ns ! 1]"
    by (rule template_2chars_unsigned)
  show ?thesis
    using find_2chars_swar_first [OF ns t, of 0 "hay_bytes h"] pk
    by (simp add: strzl_naive_find_2chars_def)
qed


subsection \<open>The 3-byte kernel\<close>

lemma range_match_3:
  assumes "length xs = 8" "length ts = 8" "a + 3 \<le> 8"
  shows "(\<forall>j<24. bit (NOT (le_u64 xs XOR le_u64 ts)) (8 * a + j))
         \<longleftrightarrow> xs ! a = ts ! a \<and> xs ! (a + 1) = ts ! (a + 1) \<and> xs ! (a + 2) = ts ! (a + 2)"
  using range_match [OF assms] by (simp add: all_less_3)

lemma ex_less_6: "(\<exists>k<6. P k) \<longleftrightarrow> P 0 \<or> P 1 \<or> P 2 \<or> P 3 \<or> P 4 \<or> P (5::nat)"
proof -
  have "{..<6::nat} = {0, 1, 2, 3, 4, 5}" by auto
  then have "(\<exists>k<6. P k) \<longleftrightarrow> (\<exists>k \<in> {0, 1, 2, 3, 4, 5}. P k)"
    by (metis lessThan_iff)
  then show ?thesis by simp
qed

lemma bit_indicators_3chars:
  fixes n0 n1 n2 :: byte
  assumes hs: "length hs = 8"
  defines "ts \<equiv> [0, 0, n0, n1, n2, n0, n1, n2]"
  shows "bit (indicators_3chars (le_u64 hs) (le_u64 ts)) n
         \<longleftrightarrow> (\<exists>k<6. n = 8 * k \<and> hs ! k = n0 \<and> hs ! (k + 1) = n1 \<and> hs ! (k + 2) = n2)"
proof -
  define hs1 where "hs1 = 0 # take 7 hs"
  define hs2 where "hs2 = 0 # 0 # take 6 hs"
  define P0 where "P0 m \<longleftrightarrow> (\<forall>j<24. bit (NOT (le_u64 hs XOR le_u64 ts)) (m + j))" for m
  define P1 where "P1 m \<longleftrightarrow> (\<forall>j<24. bit (NOT (le_u64 hs1 XOR le_u64 ts)) (m + j))" for m
  define P2 where "P2 m \<longleftrightarrow> (\<forall>j<24. bit (NOT (le_u64 hs2 XOR le_u64 ts)) (m + j))" for m
  have lt: "length ts = 8" and l1: "length hs1 = 8" and l2: "length hs2 = 8"
    using hs by (simp_all add: ts_def hs1_def hs2_def)
  have F: "bit (fold24 (NOT (le_u64 hs XOR le_u64 ts))) m \<longleftrightarrow> (m = 16 \<or> m = 40) \<and> P0 m" for m
    unfolding P0_def by (rule bit_fold24)
  have S: "bit (fold24 (NOT (push_bit 8 (le_u64 hs) XOR le_u64 ts))) m
             \<longleftrightarrow> (m = 16 \<or> m = 40) \<and> P1 m" for m
    unfolding P1_def push_bit_8_le_u64 [OF hs] hs1_def [symmetric] by (rule bit_fold24)
  have T: "bit (fold24 (NOT (push_bit 16 (le_u64 hs) XOR le_u64 ts))) m
             \<longleftrightarrow> (m = 16 \<or> m = 40) \<and> P2 m" for m
    unfolding P2_def push_bit_16_le_u64 [OF hs] hs2_def [symmetric] by (rule bit_fold24)
  have R0: "P0 (8 * a) \<longleftrightarrow> hs ! a = ts ! a \<and> hs ! (a + 1) = ts ! (a + 1) \<and> hs ! (a + 2) = ts ! (a + 2)"
    if "a + 3 \<le> 8" for a
    unfolding P0_def using hs lt that by (rule range_match_3)
  have R1: "P1 (8 * a) \<longleftrightarrow> hs1 ! a = ts ! a \<and> hs1 ! (a + 1) = ts ! (a + 1) \<and> hs1 ! (a + 2) = ts ! (a + 2)"
    if "a + 3 \<le> 8" for a
    unfolding P1_def using l1 lt that by (rule range_match_3)
  have R2: "P2 (8 * a) \<longleftrightarrow> hs2 ! a = ts ! a \<and> hs2 ! (a + 1) = ts ! (a + 1) \<and> hs2 ! (a + 2) = ts ! (a + 2)"
    if "a + 3 \<le> 8" for a
    unfolding P2_def using l2 lt that by (rule range_match_3)
  have c0: "P2 16 \<longleftrightarrow> hs ! 0 = n0 \<and> hs ! 1 = n1 \<and> hs ! 2 = n2"
    using R2 [of 2] hs by (simp add: ts_def hs2_def)
  have c1: "P1 16 \<longleftrightarrow> hs ! 1 = n0 \<and> hs ! 2 = n1 \<and> hs ! 3 = n2"
    using R1 [of 2] hs by (simp add: ts_def hs1_def)
  have c2: "P0 16 \<longleftrightarrow> hs ! 2 = n0 \<and> hs ! 3 = n1 \<and> hs ! 4 = n2"
    using R0 [of 2] hs by (simp add: ts_def)
  have c3: "P2 40 \<longleftrightarrow> hs ! 3 = n0 \<and> hs ! 4 = n1 \<and> hs ! 5 = n2"
    using R2 [of 5] hs by (simp add: ts_def hs2_def)
  have c4: "P1 40 \<longleftrightarrow> hs ! 4 = n0 \<and> hs ! 5 = n1 \<and> hs ! 6 = n2"
    using R1 [of 5] hs by (simp add: ts_def hs1_def)
  have c5: "P0 40 \<longleftrightarrow> hs ! 5 = n0 \<and> hs ! 6 = n1 \<and> hs ! 7 = n2"
    using R0 [of 5] hs by (simp add: ts_def)
  have "bit (indicators_3chars (le_u64 hs) (le_u64 ts)) n
      \<longleftrightarrow> bit (fold24 (NOT (le_u64 hs XOR le_u64 ts))) n
          \<or> bit (fold24 (NOT (push_bit 8 (le_u64 hs) XOR le_u64 ts))) (8 + n)
          \<or> bit (fold24 (NOT (push_bit 16 (le_u64 hs) XOR le_u64 ts))) (16 + n)"
    unfolding indicators_3chars_def Let_def by (simp only: bit_or_iff bit_drop_bit_eq comp_def)
  also have "\<dots> \<longleftrightarrow> (n = 0 \<and> hs ! 0 = n0 \<and> hs ! 1 = n1 \<and> hs ! 2 = n2)
      \<or> (n = 8 \<and> hs ! 1 = n0 \<and> hs ! 2 = n1 \<and> hs ! 3 = n2)
      \<or> (n = 16 \<and> hs ! 2 = n0 \<and> hs ! 3 = n1 \<and> hs ! 4 = n2)
      \<or> (n = 24 \<and> hs ! 3 = n0 \<and> hs ! 4 = n1 \<and> hs ! 5 = n2)
      \<or> (n = 32 \<and> hs ! 4 = n0 \<and> hs ! 5 = n1 \<and> hs ! 6 = n2)
      \<or> (n = 40 \<and> hs ! 5 = n0 \<and> hs ! 6 = n1 \<and> hs ! 7 = n2)"
  proof -
    consider "n = 0" | "n = 8" | "n = 16" | "n = 24" | "n = 32" | "n = 40"
      | "n \<noteq> 0" "n \<noteq> 8" "n \<noteq> 16" "n \<noteq> 24" "n \<noteq> 32" "n \<noteq> 40"
      by blast
    then show ?thesis
    proof cases
      case 1 then show ?thesis unfolding F S T by (simp add: c0)
    next
      case 2 then show ?thesis unfolding F S T by (simp add: c1)
    next
      case 3 then show ?thesis unfolding F S T by (simp add: c2)
    next
      case 4 then show ?thesis unfolding F S T by (simp add: c3)
    next
      case 5 then show ?thesis unfolding F S T by (simp add: c4)
    next
      case 6 then show ?thesis unfolding F S T by (simp add: c5)
    next
      case 7 then show ?thesis unfolding F S T by simp
    qed
  qed
  also have "\<dots> \<longleftrightarrow> (\<exists>k<6. n = 8 * k \<and> hs ! k = n0 \<and> hs ! (k + 1) = n1 \<and> hs ! (k + 2) = n2)"
    unfolding ex_less_6 by (simp add: numeral_2_eq_2 [symmetric] numeral_3_eq_3 [symmetric])
  finally show ?thesis .
qed

lemma find_3chars_tail_first:
  assumes ns: "length ns = 3"
  shows "\<forall>j<i. \<not> occurs_at m ns j \<Longrightarrow>
         \<exists>r. find_3chars_tail m ns i = Some r \<and> first_match m ns r"
proof (induction "length m - i" arbitrary: i rule: less_induct)
  case less
  have ne: "ns \<noteq> []" using ns by auto
  show ?case
  proof (cases "i + 3 \<le> length m")
    case True
    have eq: "and_also (and_also (char_eq m i ns 0) (char_eq m (i + 1) ns 1)) (char_eq m (i + 2) ns 2)
                = Some (m ! i = ns ! 0 \<and> m ! (i + 1) = ns ! 1 \<and> m ! (i + 2) = ns ! 2)"
      using True ns by (intro chars3_eq_Some) simp_all
    have occ: "occurs_at m ns i \<longleftrightarrow> m ! i = ns ! 0 \<and> m ! (i + 1) = ns ! 1 \<and> m ! (i + 2) = ns ! 2"
      using ns True by (rule occurs_at_3)
    show ?thesis
    proof (cases "occurs_at m ns i")
      case hit: True
      have "find_3chars_tail m ns i = Some i"
        unfolding find_3chars_tail.simps [of m ns i] eq occ [symmetric] using True hit by simp
      with first_match_hit [OF ne less(2) hit] show ?thesis by simp
    next
      case miss: False
      from True have "length m - (i + 1) < length m - i" by simp
      moreover have "\<forall>j<i + 1. \<not> occurs_at m ns j"
        using less(2) miss by (auto simp: less_Suc_eq)
      ultimately have "\<exists>r. find_3chars_tail m ns (i + 1) = Some r \<and> first_match m ns r"
        by (rule less(1))
      moreover have "find_3chars_tail m ns i = find_3chars_tail m ns (i + 1)"
        unfolding find_3chars_tail.simps [of m ns i] eq occ [symmetric] using True miss by simp
      ultimately show ?thesis by simp
    qed
  next
    case False
    then have "find_3chars_tail m ns i = Some (length m)"
      by (subst find_3chars_tail.simps) simp
    moreover from False ns have "length m < i + length ns" by simp
    note first_match_end [OF ne less(2) this]
    ultimately show ?thesis by simp
  qed
qed

lemma find_3chars_swar_first:
  assumes ns: "length ns = 3"
    and t: "t = le_u64 [0, 0, ns ! 0, ns ! 1, ns ! 2, ns ! 0, ns ! 1, ns ! 2]"
  shows "\<forall>j<i. \<not> occurs_at m ns j \<Longrightarrow>
         \<exists>r. find_3chars_swar m ns t i = Some r \<and> first_match m ns r"
proof (induction "length m - i" arbitrary: i rule: less_induct)
  case less
  have ne: "ns \<noteq> []" using ns by auto
  show ?case
  proof (cases "i + 8 \<le> length m")
    case True
    let ?hs = "take 8 (drop i m)"
    let ?mi = "indicators_3chars (le_u64 ?hs) t"
    have ld: "load_u64 m i = Some (le_u64 ?hs)" using True by (rule load_u64_Some)
    have lh: "length ?hs = 8" using True by simp
    have ind: "bit ?mi n \<longleftrightarrow> (\<exists>k<8. n = 8 * k \<and> (k < 6 \<and> occurs_at m ns (i + k)))" for n
    proof -
      have "bit ?mi n \<longleftrightarrow> (\<exists>k<6. n = 8 * k \<and> ?hs ! k = ns ! 0 \<and> ?hs ! (k + 1) = ns ! 1
                               \<and> ?hs ! (k + 2) = ns ! 2)"
        unfolding t using lh by (rule bit_indicators_3chars)
      also have "\<dots> \<longleftrightarrow> (\<exists>k<6. n = 8 * k \<and> occurs_at m ns (i + k))"
      proof (intro ex_cong1 conj_cong refl)
        fix k :: nat assume k: "k < 6"
        with True have "occurs_at m ns (i + k)
            \<longleftrightarrow> m ! (i + k) = ns ! 0 \<and> m ! (i + k + 1) = ns ! 1 \<and> m ! (i + k + 2) = ns ! 2"
          by (intro occurs_at_3 [OF ns]) simp
        with True k show "(?hs ! k = ns ! 0 \<and> ?hs ! (k + 1) = ns ! 1 \<and> ?hs ! (k + 2) = ns ! 2)
            \<longleftrightarrow> occurs_at m ns (i + k)"
          by (simp add: add.assoc)
      qed
      also have "\<dots> \<longleftrightarrow> (\<exists>k<8. n = 8 * k \<and> (k < 6 \<and> occurs_at m ns (i + k)))" by auto
      finally show ?thesis .
    qed
    show ?thesis
    proof (cases "?mi = 0")
      case zero: True
      with indicator_zero_iff [of ?mi "\<lambda>k. k < 6 \<and> occurs_at m ns (i + k)", OF ind]
      have "\<forall>k<6. \<not> occurs_at m ns (i + k)" by simp
      with less(2) have "\<forall>j<i + 6. \<not> occurs_at m ns j" by (rule scan_miss)
      moreover from True have "length m - (i + 6) < length m - i" by simp
      ultimately have "\<exists>r. find_3chars_swar m ns t (i + 6) = Some r \<and> first_match m ns r"
        by (intro less(1))
      moreover have "find_3chars_swar m ns t i = find_3chars_swar m ns t (i + 6)"
        unfolding find_3chars_swar.simps [of m ns t i] ld using True zero by simp
      ultimately show ?thesis by simp
    next
      case nz: False
      define k where "k = ctzll ?mi div 8"
      from indicator_ctz [of ?mi "\<lambda>k. k < 6 \<and> occurs_at m ns (i + k)", OF ind nz]
      have k: "k < 6" "occurs_at m ns (i + k)" "\<forall>j<k. \<not> occurs_at m ns (i + j)"
        by (auto simp: k_def)
      from less(2) k(2,3) have "\<forall>j<i + k. \<not> occurs_at m ns j" by (rule scan_hit)
      from first_match_hit [OF ne this k(2)] have "first_match m ns (i + k)" .
      moreover have "find_3chars_swar m ns t i = Some (i + k)"
        unfolding find_3chars_swar.simps [of m ns t i] ld using True nz by (simp add: k_def)
      ultimately show ?thesis by simp
    qed
  next
    case False
    with find_3chars_tail_first [OF ns less(2)] show ?thesis
      by (subst find_3chars_swar.simps) simp
  qed
qed

lemma strzl_naive_find_3chars_first:
  assumes ns: "length ns = 3" and u: "\<not> sc \<or> (\<forall>b \<in> set ns. b < 0x80)"
  shows "\<exists>r. strzl_naive_find_3chars sc h ns = Some r \<and> first_match (hay_bytes h) ns r"
proof -
  have pk: "peek ns 0 = Some (ns ! 0)" "peek ns 1 = Some (ns ! 1)" "peek ns 2 = Some (ns ! 2)"
    using ns by (simp_all add: peek_def)
  have "ns ! 0 \<in> set ns" "ns ! 1 \<in> set ns" "ns ! 2 \<in> set ns" using ns by simp_all
  with u have "\<not> sc \<or> (ns ! 0 < 0x80 \<and> ns ! 1 < 0x80 \<and> ns ! 2 < 0x80)" by blast
  then have t: "template_3chars sc (ns ! 0) (ns ! 1) (ns ! 2)
      = le_u64 [0, 0, ns ! 0, ns ! 1, ns ! 2, ns ! 0, ns ! 1, ns ! 2]"
    by (rule template_3chars_unsigned)
  show ?thesis
    using find_3chars_swar_first [OF ns t, of 0 "hay_bytes h"] pk
    by (simp add: strzl_naive_find_3chars_def)
qed


subsection \<open>The 4-byte kernel\<close>

lemma bit_mask_lo32: "bit (0x00000000FFFFFFFF :: u64) n \<longleftrightarrow> n < 32"
proof (cases "n < 64")
  case True
  have "\<forall>k \<in> set [0..<64]. bit (0x00000000FFFFFFFF :: u64) k = (k < 32)" by code_simp
  with True show ?thesis by simp
next
  case False then show ?thesis by (auto dest: bit_imp_le_length)
qed

lemma bit_mask_8_40: "bit (0x000000FFFFFFFF00 :: u64) n \<longleftrightarrow> 8 \<le> n \<and> n < 40"
proof (cases "n < 64")
  case True
  have "\<forall>k \<in> set [0..<64]. bit (0x000000FFFFFFFF00 :: u64) k = (8 \<le> k \<and> k < 40)" by code_simp
  with True show ?thesis by simp
next
  case False then show ?thesis by (auto dest: bit_imp_le_length)
qed

lemma bit_mask_16_48: "bit (0x0000FFFFFFFF0000 :: u64) n \<longleftrightarrow> 16 \<le> n \<and> n < 48"
proof (cases "n < 64")
  case True
  have "\<forall>k \<in> set [0..<64]. bit (0x0000FFFFFFFF0000 :: u64) k = (16 \<le> k \<and> k < 48)" by code_simp
  with True show ?thesis by simp
next
  case False then show ?thesis by (auto dest: bit_imp_le_length)
qed

lemma bit_mask_24_56: "bit (0x00FFFFFFFF000000 :: u64) n \<longleftrightarrow> 24 \<le> n \<and> n < 56"
proof (cases "n < 64")
  case True
  have "\<forall>k \<in> set [0..<64]. bit (0x00FFFFFFFF000000 :: u64) k = (24 \<le> k \<and> k < 56)" by code_simp
  with True show ?thesis by simp
next
  case False then show ?thesis by (auto dest: bit_imp_le_length)
qed

lemma bit_h01_gen:
  fixes h M1 M2 :: u64
  assumes "\<And>n. bit M1 n \<longleftrightarrow> n < 32" "\<And>n. bit M2 n \<longleftrightarrow> 8 \<le> n \<and> n < 40"
  shows "j < 32 \<Longrightarrow> bit ((h AND M1) OR push_bit 24 (h AND M2)) (0 + j) \<longleftrightarrow> bit h (0 + j)"
    and "j < 32 \<Longrightarrow> bit ((h AND M1) OR push_bit 24 (h AND M2)) (32 + j) \<longleftrightarrow> bit h (8 + j)"
  by (auto simp add: bit_or_iff bit_and_iff bit_push_bit_iff assms)

lemma bit_h23_gen:
  fixes h M1 M2 :: u64
  assumes "\<And>n. bit M1 n \<longleftrightarrow> 16 \<le> n \<and> n < 48" "\<And>n. bit M2 n \<longleftrightarrow> 24 \<le> n \<and> n < 56"
  shows "j < 32 \<Longrightarrow> bit (drop_bit 16 (h AND M1) OR push_bit 8 (h AND M2)) (0 + j)
           \<longleftrightarrow> bit h (16 + j)"
    and "j < 32 \<Longrightarrow> bit (drop_bit 16 (h AND M1) OR push_bit 8 (h AND M2)) (32 + j)
           \<longleftrightarrow> bit h (24 + j)"
  by (auto simp add: bit_or_iff bit_and_iff bit_push_bit_iff bit_drop_bit_eq assms)

lemmas bit_h01 = bit_h01_gen [OF bit_mask_lo32 bit_mask_8_40]
lemmas bit_h23 = bit_h23_gen [OF bit_mask_16_48 bit_mask_24_56]

lemma window_eq:
  assumes "length hs = 8" "length ts = 8" "a + 4 \<le> 8" "b + 4 \<le> 8"
    and oa: "oa = 8 * a" and ob: "ob = 8 * b"
    and x: "\<And>j. j < 32 \<Longrightarrow> bit x (ob + j) \<longleftrightarrow> bit (le_u64 hs) (oa + j)"
  shows "(\<forall>j<32. bit (NOT (x XOR le_u64 ts)) (ob + j))
         \<longleftrightarrow> hs ! a = ts ! b \<and> hs ! (a + 1) = ts ! (b + 1) \<and> hs ! (a + 2) = ts ! (b + 2)
             \<and> hs ! (a + 3) = ts ! (b + 3)"
proof -
  have "8 * b + j < 64" if "j < 32" for j using that assms(4) by simp
  then have "(\<forall>j<32. bit (NOT (x XOR le_u64 ts)) (8 * b + j))
      \<longleftrightarrow> (\<forall>j<8 * 4. bit (le_u64 hs) (8 * a + j) \<longleftrightarrow> bit (le_u64 ts) (8 * b + j))"
    using x unfolding oa ob by (auto simp: bit_not_iff bit_xor_iff)
  also have "\<dots> \<longleftrightarrow> (\<forall>q<4. hs ! (a + q) = ts ! (b + q))"
    using assms(1-4) by (rule bits_range_eq)
  finally show ?thesis unfolding oa ob by (simp add: all_less_4)
qed

lemma bit_h01_indicators:
  fixes n0 n1 n2 n3 :: byte
  assumes hs: "length hs = 8"
  defines "ts \<equiv> [n0, n1, n2, n3, n0, n1, n2, n3]"
  shows "bit (h01_indicators (le_u64 hs) (le_u64 ts)) 0 \<longleftrightarrow> occurs_at hs [n0, n1, n2, n3] 0"
    and "bit (h01_indicators (le_u64 hs) (le_u64 ts)) 32 \<longleftrightarrow> occurs_at hs [n0, n1, n2, n3] 1"
proof -
  let ?h = "le_u64 hs"
  let ?x = "(?h AND 0x00000000FFFFFFFF) OR push_bit 24 (?h AND 0x000000FFFFFFFF00)"
  have lt: "length ts = 8" by (simp add: ts_def)
  have i: "h01_indicators ?h (le_u64 ts) = fold32 (NOT (?x XOR le_u64 ts))"
    by (simp only: h01_indicators_def Let_def)
  have "(\<forall>j<32. bit (NOT (?x XOR le_u64 ts)) (0 + j))
      \<longleftrightarrow> hs ! 0 = ts ! 0 \<and> hs ! (0 + 1) = ts ! (0 + 1) \<and> hs ! (0 + 2) = ts ! (0 + 2)
          \<and> hs ! (0 + 3) = ts ! (0 + 3)"
  proof (rule window_eq [OF hs lt])
    show "\<And>j. j < 32 \<Longrightarrow> bit ?x (0 + j) \<longleftrightarrow> bit ?h (0 + j)" by (rule bit_h01(1))
  qed simp_all
  then show "bit (h01_indicators ?h (le_u64 ts)) 0 \<longleftrightarrow> occurs_at hs [n0, n1, n2, n3] 0"
    unfolding i bit_fold32 using occurs_at_nth [of 0 "[n0, n1, n2, n3]" hs] hs
    by (simp add: ts_def all_less_4 numeral_2_eq_2 [symmetric] numeral_3_eq_3 [symmetric])
  have "(\<forall>j<32. bit (NOT (?x XOR le_u64 ts)) (32 + j))
      \<longleftrightarrow> hs ! 1 = ts ! 4 \<and> hs ! (1 + 1) = ts ! (4 + 1) \<and> hs ! (1 + 2) = ts ! (4 + 2)
          \<and> hs ! (1 + 3) = ts ! (4 + 3)"
  proof (rule window_eq [OF hs lt])
    show "\<And>j. j < 32 \<Longrightarrow> bit ?x (32 + j) \<longleftrightarrow> bit ?h (8 + j)" by (rule bit_h01(2))
  qed simp_all
  then show "bit (h01_indicators ?h (le_u64 ts)) 32 \<longleftrightarrow> occurs_at hs [n0, n1, n2, n3] 1"
    unfolding i bit_fold32 using occurs_at_nth [of 1 "[n0, n1, n2, n3]" hs] hs
    by (simp add: ts_def all_less_4 numeral_2_eq_2 [symmetric] numeral_3_eq_3 [symmetric])
qed

lemma bit_h23_indicators:
  fixes n0 n1 n2 n3 :: byte
  assumes hs: "length hs = 8"
  defines "ts \<equiv> [n0, n1, n2, n3, n0, n1, n2, n3]"
  shows "bit (h23_indicators (le_u64 hs) (le_u64 ts)) 0 \<longleftrightarrow> occurs_at hs [n0, n1, n2, n3] 2"
    and "bit (h23_indicators (le_u64 hs) (le_u64 ts)) 32 \<longleftrightarrow> occurs_at hs [n0, n1, n2, n3] 3"
proof -
  let ?h = "le_u64 hs"
  let ?x = "drop_bit 16 (?h AND 0x0000FFFFFFFF0000) OR push_bit 8 (?h AND 0x00FFFFFFFF000000)"
  have lt: "length ts = 8" by (simp add: ts_def)
  have i: "h23_indicators ?h (le_u64 ts) = fold32 (NOT (?x XOR le_u64 ts))"
    by (simp only: h23_indicators_def Let_def)
  have "(\<forall>j<32. bit (NOT (?x XOR le_u64 ts)) (0 + j))
      \<longleftrightarrow> hs ! 2 = ts ! 0 \<and> hs ! (2 + 1) = ts ! (0 + 1) \<and> hs ! (2 + 2) = ts ! (0 + 2)
          \<and> hs ! (2 + 3) = ts ! (0 + 3)"
  proof (rule window_eq [OF hs lt])
    show "\<And>j. j < 32 \<Longrightarrow> bit ?x (0 + j) \<longleftrightarrow> bit ?h (16 + j)" by (rule bit_h23(1))
  qed simp_all
  then show "bit (h23_indicators ?h (le_u64 ts)) 0 \<longleftrightarrow> occurs_at hs [n0, n1, n2, n3] 2"
    unfolding i bit_fold32 using occurs_at_nth [of 2 "[n0, n1, n2, n3]" hs] hs
    by (simp add: ts_def all_less_4 numeral_2_eq_2 [symmetric] numeral_3_eq_3 [symmetric])
  have "(\<forall>j<32. bit (NOT (?x XOR le_u64 ts)) (32 + j))
      \<longleftrightarrow> hs ! 3 = ts ! 4 \<and> hs ! (3 + 1) = ts ! (4 + 1) \<and> hs ! (3 + 2) = ts ! (4 + 2)
          \<and> hs ! (3 + 3) = ts ! (4 + 3)"
  proof (rule window_eq [OF hs lt])
    show "\<And>j. j < 32 \<Longrightarrow> bit ?x (32 + j) \<longleftrightarrow> bit ?h (24 + j)" by (rule bit_h23(2))
  qed simp_all
  then show "bit (h23_indicators ?h (le_u64 ts)) 32 \<longleftrightarrow> occurs_at hs [n0, n1, n2, n3] 3"
    unfolding i bit_fold32 using occurs_at_nth [of 3 "[n0, n1, n2, n3]" hs] hs
    by (simp add: ts_def all_less_4 numeral_2_eq_2 [symmetric] numeral_3_eq_3 [symmetric])
qed


lemma fold32_repr:
  "fold32 x = of_bool (bit (fold32 x) 0) OR push_bit 32 (of_bool (bit (fold32 x) 32))"
proof (rule bit_word_eqI)
  fix n assume "n < LENGTH(64)"
  have "bit (fold32 x) n \<Longrightarrow> n = 0 \<or> n = 32" by (simp add: bit_fold32)
  then show "bit (fold32 x) n
      \<longleftrightarrow> bit (of_bool (bit (fold32 x) 0) OR push_bit 32 (of_bool (bit (fold32 x) 32)) :: u64) n"
    by (auto simp: bit_or_iff bit_push_bit_iff bit_of_bool_iff)
qed

lemma lookup_list: "lookup = [0, 0, 1, 0, 2, 0, 1, 0, 3, 0, 1, 0, 2, 0, 1, 0]"
  by code_simp

lemma lookup_first:
  fixes a0 a1 a2 a3 :: bool
  defines "X \<equiv> (of_bool a0 OR push_bit 32 (of_bool a1) :: u64)"
  defines "Y \<equiv> (of_bool a2 OR push_bit 32 (of_bool a3) :: u64)"
  shows "X + Y \<noteq> 0 \<longleftrightarrow> a0 \<or> a1 \<or> a2 \<or> a3"
    and "a0 \<or> a1 \<or> a2 \<or> a3 \<Longrightarrow>
         peek lookup (unat (match_indicators_4chars X Y))
           = Some (if a0 then 0 else if a1 then 1 else if a2 then 2 else 3)"
  unfolding X_def Y_def lookup_list
  by (cases a0; cases a1; cases a2; cases a3; simp add: match_indicators_4chars_def peek_def)+

lemma indicators_4chars_repr:
  "h01_indicators h t = of_bool (bit (h01_indicators h t) 0)
                          OR push_bit 32 (of_bool (bit (h01_indicators h t) 32))"
  "h23_indicators h t = of_bool (bit (h23_indicators h t) 0)
                          OR push_bit 32 (of_bool (bit (h23_indicators h t) 32))"
  unfolding h01_indicators_def h23_indicators_def Let_def by (rule fold32_repr)+


lemma slice_4chars:
  assumes ns: "length ns = 4" and fit: "i + 8 \<le> length m"
    and t: "t = le_u64 [ns ! 0, ns ! 1, ns ! 2, ns ! 3, ns ! 0, ns ! 1, ns ! 2, ns ! 3]"
  defines "h \<equiv> le_u64 (take 8 (drop i m))"
  shows "h01_indicators h t + h23_indicators h t \<noteq> 0 \<longleftrightarrow> (\<exists>q<4. occurs_at m ns (i + q))"
    and "\<exists>q<4. occurs_at m ns (i + q) \<Longrightarrow>
         \<exists>off. peek lookup (unat (match_indicators_4chars (h01_indicators h t) (h23_indicators h t)))
                 = Some off
               \<and> unat off < 4 \<and> occurs_at m ns (i + unat off)
               \<and> (\<forall>q<unat off. \<not> occurs_at m ns (i + q))"
proof -
  let ?hs = "take 8 (drop i m)"
  have lh: "length ?hs = 8" using fit by simp
  have n4: "ns = [ns ! 0, ns ! 1, ns ! 2, ns ! 3]"
  proof -
    from ns obtain a b c d where "ns = [a, b, c, d]"
      by (auto simp: length_Suc_conv eval_nat_numeral)
    then show ?thesis by simp
  qed
  have occ: "occurs_at ?hs ns q \<longleftrightarrow> occurs_at m ns (i + q)" if "q < 4" for q
    using that fit ns by (simp add: occurs_at_def drop_take add.commute)
  define a0 where "a0 = bit (h01_indicators h t) 0"
  define a1 where "a1 = bit (h01_indicators h t) 32"
  define a2 where "a2 = bit (h23_indicators h t) 0"
  define a3 where "a3 = bit (h23_indicators h t) 32"
  have "a0 \<longleftrightarrow> occurs_at ?hs ns 0" "a1 \<longleftrightarrow> occurs_at ?hs ns 1"
    "a2 \<longleftrightarrow> occurs_at ?hs ns 2" "a3 \<longleftrightarrow> occurs_at ?hs ns 3"
    unfolding a0_def a1_def a2_def a3_def h_def t
    using bit_h01_indicators [OF lh, of "ns ! 0" "ns ! 1" "ns ! 2" "ns ! 3"]
      bit_h23_indicators [OF lh, of "ns ! 0" "ns ! 1" "ns ! 2" "ns ! 3"]
    by (simp_all only: n4 [symmetric])
  with occ [of 0] occ [of 1] occ [of 2] occ [of 3]
  have a: "a0 \<longleftrightarrow> occurs_at m ns (i + 0)" "a1 \<longleftrightarrow> occurs_at m ns (i + 1)"
    "a2 \<longleftrightarrow> occurs_at m ns (i + 2)" "a3 \<longleftrightarrow> occurs_at m ns (i + 3)"
    by simp_all
  have X: "h01_indicators h t = of_bool a0 OR push_bit 32 (of_bool a1)"
    unfolding a0_def a1_def by (rule indicators_4chars_repr(1))
  have Y: "h23_indicators h t = of_bool a2 OR push_bit 32 (of_bool a3)"
    unfolding a2_def a3_def by (rule indicators_4chars_repr(2))
  have ex: "(\<exists>q<4. occurs_at m ns (i + q)) \<longleftrightarrow> a0 \<or> a1 \<or> a2 \<or> a3"
  proof -
    have "(\<exists>q<4. occurs_at m ns (i + q)) \<longleftrightarrow> \<not> (\<forall>q<4. \<not> occurs_at m ns (i + q))" by blast
    also have "\<dots> \<longleftrightarrow> a0 \<or> a1 \<or> a2 \<or> a3"
      unfolding all_less_4 a by auto
    finally show ?thesis .
  qed
  show "h01_indicators h t + h23_indicators h t \<noteq> 0 \<longleftrightarrow> (\<exists>q<4. occurs_at m ns (i + q))"
    unfolding ex X Y by (rule lookup_first(1))
  assume "\<exists>q<4. occurs_at m ns (i + q)"
  then have some: "a0 \<or> a1 \<or> a2 \<or> a3" by (simp only: ex)
  define off :: byte where "off = (if a0 then 0 else if a1 then 1 else if a2 then 2 else 3)"
  have pk: "peek lookup (unat (match_indicators_4chars (h01_indicators h t) (h23_indicators h t)))
      = Some off"
    unfolding X Y off_def using some by (rule lookup_first(2))
  have "unat off < 4 \<and> occurs_at m ns (i + unat off) \<and> (\<forall>q<unat off. \<not> occurs_at m ns (i + q))"
  proof -
    consider "a0" | "\<not> a0" "a1" | "\<not> a0" "\<not> a1" "a2" | "\<not> a0" "\<not> a1" "\<not> a2" "a3"
      using some by blast
    then show ?thesis
    proof cases
      case 1 then show ?thesis using a by (simp add: off_def)
    next
      case 2 then show ?thesis using a by (simp add: off_def)
    next
      case 3 then show ?thesis using a by (simp add: off_def all_less_2)
    next
      case 4 then show ?thesis using a by (simp add: off_def all_less_3)
    qed
  qed
  with pk show "\<exists>off. peek lookup (unat (match_indicators_4chars (h01_indicators h t) (h23_indicators h t)))
                 = Some off
               \<and> unat off < 4 \<and> occurs_at m ns (i + unat off)
               \<and> (\<forall>q<unat off. \<not> occurs_at m ns (i + q))"
    by blast
qed

lemma find_4chars_tail_first:
  assumes ns: "length ns = 4"
  shows "\<forall>j<i. \<not> occurs_at m ns j \<Longrightarrow>
         \<exists>r. find_4chars_tail m ns i = Some r \<and> first_match m ns r"
proof (induction "length m - i" arbitrary: i rule: less_induct)
  case less
  have ne: "ns \<noteq> []" using ns by auto
  show ?case
  proof (cases "i + 4 \<le> length m")
    case True
    have eq: "chars4_eq m i ns
                = Some (m ! i = ns ! 0 \<and> m ! (i + 1) = ns ! 1 \<and> m ! (i + 2) = ns ! 2 \<and> m ! (i + 3) = ns ! 3)"
      using True ns by (intro chars4_eq_Some) simp_all
    have occ: "occurs_at m ns i
        \<longleftrightarrow> m ! i = ns ! 0 \<and> m ! (i + 1) = ns ! 1 \<and> m ! (i + 2) = ns ! 2 \<and> m ! (i + 3) = ns ! 3"
      using ns True by (rule occurs_at_4)
    show ?thesis
    proof (cases "occurs_at m ns i")
      case hit: True
      have "find_4chars_tail m ns i = Some i"
        unfolding find_4chars_tail.simps [of m ns i] eq occ [symmetric] using True hit by simp
      with first_match_hit [OF ne less(2) hit] show ?thesis by simp
    next
      case miss: False
      from True have "length m - (i + 1) < length m - i" by simp
      moreover have "\<forall>j<i + 1. \<not> occurs_at m ns j"
        using less(2) miss by (auto simp: less_Suc_eq)
      ultimately have "\<exists>r. find_4chars_tail m ns (i + 1) = Some r \<and> first_match m ns r"
        by (rule less(1))
      moreover have "find_4chars_tail m ns i = find_4chars_tail m ns (i + 1)"
        unfolding find_4chars_tail.simps [of m ns i] eq occ [symmetric] using True miss by simp
      ultimately show ?thesis by simp
    qed
  next
    case False
    then have "find_4chars_tail m ns i = Some (length m)"
      by (subst find_4chars_tail.simps) simp
    moreover from False ns have "length m < i + length ns" by simp
    note first_match_end [OF ne less(2) this]
    ultimately show ?thesis by simp
  qed
qed

lemma find_4chars_swar_first:
  assumes ns: "length ns = 4"
    and t: "t = le_u64 [ns ! 0, ns ! 1, ns ! 2, ns ! 3, ns ! 0, ns ! 1, ns ! 2, ns ! 3]"
  shows "\<forall>j<i. \<not> occurs_at m ns j \<Longrightarrow>
         \<exists>r. find_4chars_swar m ns t i = Some r \<and> first_match m ns r"
proof (induction "length m - i" arbitrary: i rule: less_induct)
  case less
  have ne: "ns \<noteq> []" using ns by auto
  show ?case
  proof (cases "i + 8 \<le> length m")
    case True
    let ?h = "le_u64 (take 8 (drop i m))"
    have ld: "load_u64 m i = Some ?h" using True by (rule load_u64_Some)
    note sl = slice_4chars [OF ns True t]
    show ?thesis
    proof (cases "\<exists>q<4. occurs_at m ns (i + q)")
      case none: False
      then have "\<forall>q<4. \<not> occurs_at m ns (i + q)" by simp
      with less(2) have "\<forall>j<i + 4. \<not> occurs_at m ns j" by (rule scan_miss)
      moreover from True have "length m - (i + 4) < length m - i" by simp
      ultimately have "\<exists>r. find_4chars_swar m ns t (i + 4) = Some r \<and> first_match m ns r"
        by (intro less(1))
      moreover from none sl(1) have "h01_indicators ?h t + h23_indicators ?h t = 0" by blast
      then have "find_4chars_swar m ns t i = find_4chars_swar m ns t (i + 4)"
        unfolding find_4chars_swar.simps [of m ns t i] ld using True by simp
      ultimately show ?thesis by simp
    next
      case some: True
      from sl(2) [OF some] obtain off where
        off: "peek lookup (unat (match_indicators_4chars (h01_indicators ?h t) (h23_indicators ?h t)))
                = Some off"
          "occurs_at m ns (i + unat off)" "\<forall>q<unat off. \<not> occurs_at m ns (i + q)"
        by blast
      from less(2) off(2,3) have "\<forall>j<i + unat off. \<not> occurs_at m ns j" by (rule scan_hit)
      from first_match_hit [OF ne this off(2)] have "first_match m ns (i + unat off)" .
      moreover from some sl(1) have "h01_indicators ?h t + h23_indicators ?h t \<noteq> 0" by blast
      then have "find_4chars_swar m ns t i = Some (i + unat off)"
        unfolding find_4chars_swar.simps [of m ns t i] ld using True off(1) by simp
      ultimately show ?thesis by simp
    qed
  next
    case False
    with find_4chars_tail_first [OF ns less(2)] show ?thesis
      by (subst find_4chars_swar.simps) simp
  qed
qed

lemma find_4chars_head_first:
  assumes ns: "length ns = 4"
  shows "\<forall>j<i. \<not> occurs_at m ns j \<Longrightarrow>
         \<exists>res. find_4chars_head p m ns i = Some res
           \<and> (case res of Inl r \<Rightarrow> first_match m ns r | Inr i' \<Rightarrow> \<forall>j<i'. \<not> occurs_at m ns j)"
proof (induction "length m - i" arbitrary: i rule: less_induct)
  case less
  have ne: "ns \<noteq> []" using ns by auto
  show ?case
  proof (cases "(p + i) mod 8 \<noteq> 0 \<and> i + 4 \<le> length m")
    case True
    then have fit: "i + 4 \<le> length m" by simp
    have eq: "chars4_eq m i ns
                = Some (m ! i = ns ! 0 \<and> m ! (i + 1) = ns ! 1 \<and> m ! (i + 2) = ns ! 2 \<and> m ! (i + 3) = ns ! 3)"
      using fit ns by (intro chars4_eq_Some) simp_all
    have occ: "occurs_at m ns i
        \<longleftrightarrow> m ! i = ns ! 0 \<and> m ! (i + 1) = ns ! 1 \<and> m ! (i + 2) = ns ! 2 \<and> m ! (i + 3) = ns ! 3"
      using ns fit by (rule occurs_at_4)
    show ?thesis
    proof (cases "occurs_at m ns i")
      case hit: True
      have "find_4chars_head p m ns i = Some (Inl i)"
        unfolding find_4chars_head.simps [of p m ns i] eq occ [symmetric] using True hit by simp
      with first_match_hit [OF ne less(2) hit] show ?thesis by simp
    next
      case miss: False
      from fit have "length m - (i + 1) < length m - i" by simp
      moreover have "\<forall>j<i + 1. \<not> occurs_at m ns j"
        using less(2) miss by (auto simp: less_Suc_eq)
      ultimately have "\<exists>res. find_4chars_head p m ns (i + 1) = Some res
           \<and> (case res of Inl r \<Rightarrow> first_match m ns r | Inr i' \<Rightarrow> \<forall>j<i'. \<not> occurs_at m ns j)"
        by (rule less(1))
      moreover have "find_4chars_head p m ns i = find_4chars_head p m ns (i + 1)"
        unfolding find_4chars_head.simps [of p m ns i] eq occ [symmetric] using True miss by simp
      ultimately show ?thesis by simp
    qed
  next
    case False
    then have "find_4chars_head p m ns i = Some (Inr i)"
      by (subst find_4chars_head.simps) auto
    with less(2) show ?thesis by simp
  qed
qed

lemma strzl_naive_find_4chars_first:
  assumes ns: "length ns = 4" and u: "\<not> sc \<or> (\<forall>b \<in> set ns. b < 0x80)"
  shows "\<exists>r. strzl_naive_find_4chars sc h ns = Some r \<and> first_match (hay_bytes h) ns r"
proof -
  have pk: "peek ns 0 = Some (ns ! 0)" "peek ns 1 = Some (ns ! 1)" "peek ns 2 = Some (ns ! 2)"
    "peek ns 3 = Some (ns ! 3)"
    using ns by (simp_all add: peek_def)
  have "ns ! 0 \<in> set ns" "ns ! 1 \<in> set ns" "ns ! 2 \<in> set ns" "ns ! 3 \<in> set ns"
    using ns by simp_all
  with u have "\<not> sc \<or> (ns ! 0 < 0x80 \<and> ns ! 1 < 0x80 \<and> ns ! 2 < 0x80 \<and> ns ! 3 < 0x80)" by blast
  then have t: "template_4chars sc (ns ! 0) (ns ! 1) (ns ! 2) (ns ! 3)
      = le_u64 [ns ! 0, ns ! 1, ns ! 2, ns ! 3, ns ! 0, ns ! 1, ns ! 2, ns ! 3]"
    by (rule template_4chars_unsigned)
  from find_4chars_head_first [OF ns, of 0 "hay_bytes h" "hay_ptr h"]
  obtain res where res: "find_4chars_head (hay_ptr h) (hay_bytes h) ns 0 = Some res"
    "case res of Inl r \<Rightarrow> first_match (hay_bytes h) ns r
       | Inr i' \<Rightarrow> \<forall>j<i'. \<not> occurs_at (hay_bytes h) ns j"
    by auto
  show ?thesis
  proof (cases res)
    case (Inl r)
    with res show ?thesis by (simp add: strzl_naive_find_4chars_def)
  next
    case (Inr i')
    with res have "\<forall>j<i'. \<not> occurs_at (hay_bytes h) ns j" by simp
    from find_4chars_swar_first [OF ns t this] Inr res(1) pk show ?thesis
      by (simp add: strzl_naive_find_4chars_def)
  qed
qed


lemma occurs_at_1:
  "occurs_at m [c] p \<longleftrightarrow> p < length m \<and> m ! p = c"
proof (cases "p < length m")
  case True
  then have "p + length [c] \<le> length m" by simp
  from occurs_at_nth [OF this] show ?thesis using True by simp
next
  case False
  then have "length m < p + length [c]" by simp
  then have "\<not> occurs_at m [c] p" by (intro occurs_at_short) simp_all
  with False show ?thesis by simp
qed

subsection \<open>What the scalar entry point computes\<close>

lemma first_match_char:
  "first_match m [c] (length (takeWhile (\<lambda>b. b \<noteq> c) m))"
proof -
  let ?r = "length (takeWhile (\<lambda>b. b \<noteq> c) m)"
  have le: "?r \<le> length m" by (rule length_takeWhile_le)
  have before: "\<not> occurs_at m [c] j" if "j < ?r" for j
  proof -
    from that have "takeWhile (\<lambda>b. b \<noteq> c) m ! j \<in> set (takeWhile (\<lambda>b. b \<noteq> c) m)"
      by (rule nth_mem)
    then have "takeWhile (\<lambda>b. b \<noteq> c) m ! j \<noteq> c" by (auto dest: set_takeWhileD)
    moreover have "takeWhile (\<lambda>b. b \<noteq> c) m ! j = m ! j" using that by (rule takeWhile_nth)
    ultimately show ?thesis by (simp add: occurs_at_1)
  qed
  show ?thesis
  proof (cases "?r < length m")
    case True
    from nth_length_takeWhile [OF True] have "m ! ?r = c" by simp
    with True before show ?thesis by (simp add: first_match_def occurs_at_1)
  next
    case False
    with le have "?r = length m" by simp
    with before show ?thesis by (simp add: first_match_def)
  qed
qed

lemma first_match_unique:
  assumes "first_match m ns r" "first_match m ns r'" "ns \<noteq> []"
  shows "r = r'"
proof (rule ccontr)
  assume ne: "r \<noteq> r'"
  have *: False if a: "first_match m ns x" and b: "first_match m ns y" and lt: "x < y" for x y
  proof -
    from b have "y \<le> length m" by (auto simp: first_match_def)
    with lt have "x < length m" by simp
    with a have "occurs_at m ns x" by (auto simp: first_match_def)
    with b lt show False by (auto simp: first_match_def)
  qed
  from ne have "r < r' \<or> r' < r" by auto
  with * assms show False by blast
qed

lemma first_match_scan_result:
  assumes "ns \<noteq> []"
  shows "first_match hs ns r \<longleftrightarrow> scan_result hs ns 0 r"
proof
  assume f: "first_match hs ns r"
  show "scan_result hs ns 0 r"
  proof (cases "r < length hs")
    case True
    with f have occ: "occurs_at hs ns r" by (auto simp: first_match_def)
    from occurs_at_bound [OF occ assms] f occ show ?thesis
      by (auto simp: scan_result_def first_match_def)
  next
    case False
    with f have r: "r = length hs" and no: "\<forall>j<length hs. \<not> occurs_at hs ns j"
      by (auto simp: first_match_def)
    have "\<not> occurs_at hs ns j" for j
    proof (cases "j < length hs")
      case True with no show ?thesis by simp
    next
      case False
      with assms have "length hs < j + length ns" by (cases ns) auto
      with assms show ?thesis by (rule occurs_at_short)
    qed
    with r show ?thesis by (simp add: scan_result_def)
  qed
next
  assume s: "scan_result hs ns 0 r"
  then consider "occurs_at hs ns r" "r + length ns \<le> length hs" "\<forall>j<r. \<not> occurs_at hs ns j"
    | "r = length hs" "\<forall>j. j + length ns \<le> length hs \<longrightarrow> \<not> occurs_at hs ns j"
    by (auto simp: scan_result_def)
  then show "first_match hs ns r"
  proof cases
    case 1
    with assms have "r < length hs" by (cases ns) auto
    with 1 show ?thesis by (simp add: first_match_def)
  next
    case 2
    have "\<not> occurs_at hs ns j" for j
      using 2(2) occurs_at_bound [of hs ns j] assms by blast
    with 2 show ?thesis by (simp add: first_match_def)
  qed
qed

lemma scan_result_unique:
  assumes "scan_result hs ns off r" "scan_result hs ns off r'"
  shows "r = r'"
proof -
  have *: "x = y \<or> False"
    if a: "occurs_at hs ns x" "x + off + length ns \<le> length hs" "\<forall>j<x. \<not> occurs_at hs ns j"
    and b: "scan_result hs ns off y" for x y
  proof -
    from b consider "occurs_at hs ns y" "\<forall>j<y. \<not> occurs_at hs ns j"
      | "\<forall>j. j + off + length ns \<le> length hs \<longrightarrow> \<not> occurs_at hs ns j"
      by (auto simp: scan_result_def)
    then show ?thesis
    proof cases
      case 1
      with a have "\<not> x < y" "\<not> y < x" by auto
      then show ?thesis by simp
    next
      case 2 with a show ?thesis by blast
    qed
  qed
  from assms show ?thesis
    unfolding scan_result_def [of hs ns off r] scan_result_def [of hs ns off r']
    using * [of r r'] * [of r' r] assms by auto
qed

text \<open>
  What \<^verbatim>\<open>strzl_naive_find_substr\<close> computes for a non-empty needle: the first occurrence
  among the candidate positions it examines. For needles of at most four bytes these are
  all positions (provided the SWAR template is built from non-negative values); for longer
  needles the last \<open>anomaly_offset\<close> positions are excluded.
\<close>

theorem strzl_naive_find_substr_scan:
  assumes wf: "needle_wf n" and ne: "ndl_bytes n \<noteq> []"
    and u: "\<not> sc \<or> (\<forall>b \<in> set (ndl_bytes n). b < 0x80) \<or> 5 \<le> length (ndl_bytes n)"
  shows "\<exists>r. strzl_naive_find_substr sc h n = Some r
           \<and> scan_result (hay_bytes h) (ndl_bytes n) (examined_offset n) r"
proof -
  let ?ns = "ndl_bytes n" and ?hs = "hay_bytes h"
  consider "length ?hs < length ?ns" | "length ?ns = 1" "length ?ns \<le> length ?hs"
    | "length ?ns = 2" "length ?ns \<le> length ?hs" | "length ?ns = 3" "length ?ns \<le> length ?hs"
    | "length ?ns = 4" "length ?ns \<le> length ?hs"
    | "5 \<le> length ?ns" "length ?ns \<le> length ?hs"
  proof -
    from ne have "0 < length ?ns" by simp
    then show ?thesis using that by linarith
  qed
  then show ?thesis
  proof cases
    case 1
    then have "\<not> occurs_at ?hs ?ns j" for j
      by (intro occurs_at_short ne) simp
    with 1 show ?thesis
      by (simp add: strzl_naive_find_substr_def scan_result_def)
  next
    case 2
    then obtain c where c: "?ns = [c]" by (cases ?ns) auto
    with u have "\<not> sc \<or> c < 0x80" by auto
    from strzl_naive_find_char_unsigned [OF this, of h] first_match_char [of ?hs c]
    have "strzl_naive_find_substr sc h n = Some (length (takeWhile (\<lambda>b. b \<noteq> c) ?hs))"
      using 2 c by (simp add: strzl_naive_find_substr_def Let_def peek_def)
    moreover have "scan_result ?hs ?ns (examined_offset n) (length (takeWhile (\<lambda>b. b \<noteq> c) ?hs))"
      using first_match_char [of ?hs c] first_match_scan_result [of ?ns ?hs] c
      by (simp add: examined_offset_def)
    ultimately show ?thesis by simp
  next
    case 3
    with u have "\<not> sc \<or> (\<forall>b \<in> set ?ns. b < 0x80)" by auto
    from strzl_naive_find_2chars_first [OF 3(1) this, of h] 3
      first_match_scan_result [OF ne, of ?hs]
    show ?thesis
      by (simp add: strzl_naive_find_substr_def Let_def examined_offset_def)
  next
    case 4
    with u have "\<not> sc \<or> (\<forall>b \<in> set ?ns. b < 0x80)" by auto
    from strzl_naive_find_3chars_first [OF 4(1) this, of h] 4
      first_match_scan_result [OF ne, of ?hs]
    show ?thesis
      by (simp add: strzl_naive_find_substr_def Let_def examined_offset_def)
  next
    case 5
    with u have "\<not> sc \<or> (\<forall>b \<in> set ?ns. b < 0x80)" by auto
    from strzl_naive_find_4chars_first [OF 5(1) this, of h] 5
      first_match_scan_result [OF ne, of ?hs]
    show ?thesis
      by (simp add: strzl_naive_find_substr_def Let_def examined_offset_def)
  next
    case 6
    with wf have off: "anomaly_offset n + 4 \<le> length ?ns" by (simp add: needle_wf_def)
    have "\<forall>j < anomaly_offset n - anomaly_offset n. \<not> occurs_at ?hs ?ns j" by simp
    from find_substr_loop_first [OF off order_refl this]
    show ?thesis
      using 6 off ne
      by (simp add: strzl_naive_find_substr_def Let_def load_u32_Some scan_result_def
          examined_offset_def)
  qed
qed

subsection \<open>A stride holding an occurrence has a non-zero mask\<close>

text \<open>
  The four comparisons of a stride, at byte offsets \<open>k < 4\<close>, cover the positions \<open>4 * l + k\<close>
  of the stride: an occurrence anywhere in the stride sets a whole 32-bit lane of one of
  them, so the verification of the stride is never skipped.
\<close>

lemma concat_uniform:
  assumes "\<And>x. length (f x) = c"
  shows "length (concat (map f v)) = c * length v"
    and "l < length v \<Longrightarrow> j < c \<Longrightarrow> concat (map f v) ! (c * l + j) = f (v ! l) ! j"
proof -
  show "length (concat (map f v)) = c * length v"
    by (induction v) (simp_all add: assms)
  show "l < length v \<Longrightarrow> j < c \<Longrightarrow> concat (map f v) ! (c * l + j) = f (v ! l) ! j"
  proof (induction v arbitrary: l)
    case Nil
    then show ?case by simp
  next
    case (Cons x v)
    show ?case
    proof (cases l)
      case 0
      with Cons.prems show ?thesis by (simp add: nth_append assms)
    next
      case (Suc l')
      with Cons.prems have "concat (map f v) ! (c * l' + j) = f (v ! l') ! j"
        by (intro Cons.IH) simp_all
      moreover have "c * l + j - c = c * l' + j" "\<not> c * l + j < c"
        using Suc by simp_all
      ultimately show ?thesis using Suc by (simp add: nth_append assms)
    qed
  qed
qed

lemma movemask_nonzero:
  assumes "l < length v" "length v \<le> 8" "v ! l = 0xFFFFFFFF"
  shows "mm256_movemask_epi8 v \<noteq> 0"
proof -
  let ?f = "\<lambda>x :: u32. map (\<lambda>j. bit x (8 * j + 7)) [0..<4]"
  let ?bs = "concat (map ?f v)"
  have len: "length ?bs = 4 * length v" by (rule concat_uniform(1)) simp
  have "?bs ! (4 * l + 0) = ?f (v ! l) ! 0"
    using assms(1) by (intro concat_uniform(2)) simp_all
  then have "?bs ! (4 * l)" using assms(3) by simp
  moreover have "4 * l < min LENGTH(32) (length ?bs)" using assms(1,2) len by simp
  ultimately have "bit (mm256_movemask_epi8 v) (4 * l)"
    unfolding mm256_movemask_epi8_def by (simp only: bit_horner_sum_bit_word_iff)
  then show ?thesis by auto
qed

lemma map2_nth:
  "l < length xs \<Longrightarrow> l < length ys \<Longrightarrow> map2 f xs ys ! l = f (xs ! l) (ys ! l)"
  by simp

lemma avx2_lane_hit:
  assumes fit: "i + 32 \<le> length hs" and l: "l < 8"
    and eq: "take 4 (drop (i + 4 * l) hs) = take 4 ns"
  shows "\<exists>v. mm256_loadu_si256 hs i = Some v
           \<and> mm256_movemask_epi8 (mm256_cmpeq_epi32 v (mm256_set1_epi32 (le_u32 (take 4 ns)))) \<noteq> 0"
proof -
  let ?v = "map (\<lambda>k. le_u32 (take 4 (drop (i + 4 * k) hs))) [0..<8]"
  let ?c = "mm256_cmpeq_epi32 ?v (mm256_set1_epi32 (le_u32 (take 4 ns)))"
  have ld: "mm256_loadu_si256 hs i = Some ?v" using fit by (simp add: mm256_loadu_si256_def)
  have lc: "length ?c = 8" by (simp add: mm256_cmpeq_epi32_def mm256_set1_epi32_def)
  have "?c ! l = 0xFFFFFFFF"
    using l eq by (simp add: mm256_cmpeq_epi32_def mm256_set1_epi32_def)
  with l lc have "mm256_movemask_epi8 ?c \<noteq> 0"
    by (intro movemask_nonzero [of l]) simp_all
  with ld show ?thesis by simp
qed

lemma split_offset_4: "j < 32 \<Longrightarrow> \<exists>l k. j = 4 * l + k \<and> l < 8 \<and> k < (4::nat)"
  by (rule exI [of _ "j div 4"], rule exI [of _ "j mod 4"]) auto

lemma avx2_masks_hit:
  assumes fit: "i + 35 \<le> length hs" and j: "j < 32"
    and eq: "take 4 (drop (i + j) hs) = take 4 ns"
  shows "\<exists>masks. avx2_masks hs i (mm256_set1_epi32 (le_u32 (take 4 ns))) = Some masks \<and> masks \<noteq> 0"
proof -
  let ?p = "mm256_set1_epi32 (le_u32 (take 4 ns))"
  from split_offset_4 [OF j] obtain l k where lk: "j = 4 * l + k" "l < 8" "k < 4" by blast
  have ld: "\<exists>v. mm256_loadu_si256 hs (i + q) = Some v" if "q < 4" for q
    using that fit by (simp add: mm256_loadu_si256_def)
  from ld [of 0] ld [of 1] ld [of 2] ld [of 3] obtain v0 v1 v2 v3 where
    v: "mm256_loadu_si256 hs i = Some v0" "mm256_loadu_si256 hs (i + 1) = Some v1"
       "mm256_loadu_si256 hs (i + 2) = Some v2" "mm256_loadu_si256 hs (i + 3) = Some v3"
    by auto
  have "i + j = i + k + 4 * l" using lk(1) by simp
  with eq have "take 4 (drop (i + k + 4 * l) hs) = take 4 ns" by simp
  moreover have "i + k + 32 \<le> length hs" using fit lk(3) by simp
  ultimately obtain w where w: "mm256_loadu_si256 hs (i + k) = Some w"
    "mm256_movemask_epi8 (mm256_cmpeq_epi32 w ?p) \<noteq> 0"
    using avx2_lane_hit [of "i + k" hs l ns] lk(2) by blast
  from lk(3) consider "k = 0" | "k = 1" | "k = 2" | "k = 3" by linarith
  then have "mm256_movemask_epi8 (mm256_cmpeq_epi32 v0 ?p) \<noteq> 0
      \<or> mm256_movemask_epi8 (mm256_cmpeq_epi32 v1 ?p) \<noteq> 0
      \<or> mm256_movemask_epi8 (mm256_cmpeq_epi32 v2 ?p) \<noteq> 0
      \<or> mm256_movemask_epi8 (mm256_cmpeq_epi32 v3 ?p) \<noteq> 0"
    using w v by cases auto
  then have "mm256_movemask_epi8 (mm256_cmpeq_epi32 v0 ?p)
      OR mm256_movemask_epi8 (mm256_cmpeq_epi32 v1 ?p)
      OR mm256_movemask_epi8 (mm256_cmpeq_epi32 v2 ?p)
      OR mm256_movemask_epi8 (mm256_cmpeq_epi32 v3 ?p) \<noteq> 0"
    by (simp add: or_eq_0_iff)
  then show ?thesis unfolding avx2_masks_def v by simp
qed

lemma word32_nonzero_bit: "(w :: u32) \<noteq> 0 \<Longrightarrow> \<exists>i<32. bit w i"
proof (rule ccontr)
  assume nz: "w \<noteq> 0" and "\<not> (\<exists>i<32. bit w i)"
  then have "\<And>n. n < LENGTH(32) \<Longrightarrow> bit w n \<longleftrightarrow> bit (0 :: u32) n" by simp
  then have "w = 0" by (rule bit_word_eqI)
  with nz show False by simp
qed

lemma reinterpret_nonzero:
  assumes "length v = 4" "l < 4" "v ! l \<noteq> 0"
  shows "vgetq_lane_u64 (vreinterpretq_u64_u32 v) 0 OR vgetq_lane_u64 (vreinterpretq_u64_u32 v) 1 \<noteq> 0"
proof -
  from word32_nonzero_bit [OF assms(3)] obtain n where n: "n < 32" "bit (v ! l) n" by blast
  let ?w = "vgetq_lane_u64 (vreinterpretq_u64_u32 v) 0 OR vgetq_lane_u64 (vreinterpretq_u64_u32 v) 1"
  from assms(2) consider "l = 0" | "l = 1" | "l = 2" | "l = 3" by linarith
  then have "bit ?w n \<or> bit ?w (32 + n)"
  proof cases
    case 1 with n show ?thesis
      by (simp add: vgetq_lane_u64_def vreinterpretq_u64_u32_def bit_or_iff bit_ucast_iff)
  next
    case 2 with n show ?thesis
      by (simp add: vgetq_lane_u64_def vreinterpretq_u64_u32_def bit_or_iff bit_ucast_iff
          bit_push_bit_iff)
  next
    case 3 with n show ?thesis
      by (simp add: vgetq_lane_u64_def vreinterpretq_u64_u32_def bit_or_iff bit_ucast_iff)
  next
    case 4 with n show ?thesis
      by (simp add: vgetq_lane_u64_def vreinterpretq_u64_u32_def bit_or_iff bit_ucast_iff
          bit_push_bit_iff)
  qed
  then show ?thesis by auto
qed

lemma neon_lane_hit:
  assumes fit: "i + 16 \<le> length hs" and l: "l < 4"
    and eq: "take 4 (drop (i + 4 * l) hs) = take 4 ns"
  shows "\<exists>v. vld1q_u32 hs i = Some v \<and> length v = 4
           \<and> vceqq_u32 v (vld1q_dup_u32 (le_u32 (take 4 ns))) ! l = 0xFFFFFFFF"
proof -
  let ?v = "map (\<lambda>k. le_u32 (take 4 (drop (i + 4 * k) hs))) [0..<4]"
  have ld: "vld1q_u32 hs i = Some ?v" using fit by (simp add: vld1q_u32_def)
  have "vceqq_u32 ?v (vld1q_dup_u32 (le_u32 (take 4 ns))) ! l = 0xFFFFFFFF"
    using l eq by (simp add: vceqq_u32_def vld1q_dup_u32_def)
  with ld show ?thesis by simp
qed

lemma split_offset_4_16: "j < 16 \<Longrightarrow> \<exists>l k. j = 4 * l + k \<and> l < 4 \<and> k < (4::nat)"
  by (rule exI [of _ "j div 4"], rule exI [of _ "j mod 4"]) auto

lemma vceqq_length: "length v = 4 \<Longrightarrow> length (vceqq_u32 v (vld1q_dup_u32 x)) = 4"
  by (simp add: vceqq_u32_def vld1q_dup_u32_def)

lemma vorrq_nth:
  "length a = 4 \<Longrightarrow> length b = 4 \<Longrightarrow> l < 4 \<Longrightarrow>
   length (vorrq_u32 a b) = 4 \<and> vorrq_u32 a b ! l = a ! l OR b ! l"
  by (simp add: vorrq_u32_def)

lemma neon_has_match_hit:
  assumes fit: "i + 19 \<le> length hs" and j: "j < 16"
    and eq: "take 4 (drop (i + j) hs) = take 4 ns"
  shows "neon_has_match hs i (vld1q_dup_u32 (le_u32 (take 4 ns))) = Some True"
proof -
  let ?p = "vld1q_dup_u32 (le_u32 (take 4 ns))"
  from split_offset_4_16 [OF j] obtain l k where lk: "j = 4 * l + k" "l < 4" "k < 4" by blast
  have ld: "\<exists>v. vld1q_u32 hs (i + q) = Some v \<and> length v = 4" if "q < 4" for q
    using that fit by (simp add: vld1q_u32_def)
  from ld [of 0] ld [of 1] ld [of 2] ld [of 3] obtain v0 v1 v2 v3 where
    v: "vld1q_u32 hs i = Some v0" "vld1q_u32 hs (i + 1) = Some v1"
       "vld1q_u32 hs (i + 2) = Some v2" "vld1q_u32 hs (i + 3) = Some v3"
    and len: "length v0 = 4" "length v1 = 4" "length v2 = 4" "length v3 = 4"
    by auto
  have "i + j = i + k + 4 * l" using lk(1) by simp
  with eq have "take 4 (drop (i + k + 4 * l) hs) = take 4 ns" by simp
  moreover have "i + k + 16 \<le> length hs" using fit lk(3) by simp
  ultimately obtain w where w: "vld1q_u32 hs (i + k) = Some w"
    "vceqq_u32 w ?p ! l = 0xFFFFFFFF"
    using neon_lane_hit [of "i + k" hs l ns] lk(2) by blast
  let ?c0 = "vceqq_u32 v0 ?p" and ?c1 = "vceqq_u32 v1 ?p"
  let ?c2 = "vceqq_u32 v2 ?p" and ?c3 = "vceqq_u32 v3 ?p"
  let ?m = "vorrq_u32 (vorrq_u32 ?c0 ?c1) (vorrq_u32 ?c2 ?c3)"
  have lc: "length ?c0 = 4" "length ?c1 = 4" "length ?c2 = 4" "length ?c3 = 4"
    using len by (simp_all add: vceqq_length)
  from lk(3) consider "k = 0" | "k = 1" | "k = 2" | "k = 3" by linarith
  then have some: "?c0 ! l \<noteq> 0 \<or> ?c1 ! l \<noteq> 0 \<or> ?c2 ! l \<noteq> 0 \<or> ?c3 ! l \<noteq> 0"
    using w v by cases auto
  have o1: "length (vorrq_u32 ?c0 ?c1) = 4" "vorrq_u32 ?c0 ?c1 ! l = ?c0 ! l OR ?c1 ! l"
    using vorrq_nth [OF lc(1) lc(2) lk(2)] by simp_all
  have o2: "length (vorrq_u32 ?c2 ?c3) = 4" "vorrq_u32 ?c2 ?c3 ! l = ?c2 ! l OR ?c3 ! l"
    using vorrq_nth [OF lc(3) lc(4) lk(2)] by simp_all
  have m: "length ?m = 4" "?m ! l = (?c0 ! l OR ?c1 ! l) OR (?c2 ! l OR ?c3 ! l)"
    using vorrq_nth [OF o1(1) o2(1) lk(2)] o1(2) o2(2) by simp_all
  from some have "?m ! l \<noteq> 0" unfolding m(2) by (simp add: or_eq_0_iff)
  from reinterpret_nonzero [OF m(1) lk(2) this]
  show ?thesis unfolding neon_has_match_def v Let_def by simp
qed

subsection \<open>What the vector scanners compute\<close>

lemma strzl_equal_occurs:
  "at + length ns \<le> length hs \<Longrightarrow>
   strzl_equal hs at ns 0 (length ns) = Some (occurs_at hs ns at)"
  using strzl_equal_eq [of at "length ns" hs 0 ns] by (simp add: occurs_at_def)

lemma verify_stride_first:
  assumes fit: "at + width + length ns \<le> Suc (length hs)"
  shows "\<forall>j<i. \<not> occurs_at hs ns (at + j) \<Longrightarrow>
         \<exists>v. verify_stride hs ns at width i = Some v
           \<and> (case v of None \<Rightarrow> \<forall>j<width. \<not> occurs_at hs ns (at + j)
               | Some r \<Rightarrow> \<exists>k<width. r = at + k \<and> occurs_at hs ns r
                             \<and> (\<forall>j<k. \<not> occurs_at hs ns (at + j)))"
proof (induction "width - i" arbitrary: i rule: less_induct)
  case less
  show ?case
  proof (cases "i < width")
    case True
    have eq: "strzl_equal hs (at + i) ns 0 (length ns) = Some (occurs_at hs ns (at + i))"
      using True fit by (intro strzl_equal_occurs) simp
    show ?thesis
    proof (cases "occurs_at hs ns (at + i)")
      case hit: True
      have "verify_stride hs ns at width i = Some (Some (i + at))"
        unfolding verify_stride.simps [of hs ns at width i] eq using True hit by simp
      moreover have "\<exists>k<width. i + at = at + k \<and> occurs_at hs ns (i + at)
                             \<and> (\<forall>j<k. \<not> occurs_at hs ns (at + j))"
        using True hit less(2) by (intro exI [of _ i]) (simp add: add.commute)
      ultimately show ?thesis by simp
    next
      case miss: False
      from True have "width - (i + 1) < width - i" by simp
      moreover have "\<forall>j<i + 1. \<not> occurs_at hs ns (at + j)"
        using less(2) miss by (auto simp: less_Suc_eq)
      ultimately have "\<exists>v. verify_stride hs ns at width (i + 1) = Some v
           \<and> (case v of None \<Rightarrow> \<forall>j<width. \<not> occurs_at hs ns (at + j)
               | Some r \<Rightarrow> \<exists>k<width. r = at + k \<and> occurs_at hs ns r
                             \<and> (\<forall>j<k. \<not> occurs_at hs ns (at + j)))"
        by (rule less(1))
      moreover have "verify_stride hs ns at width i = verify_stride hs ns at width (i + 1)"
        unfolding verify_stride.simps [of hs ns at width i] eq using True miss by simp
      ultimately show ?thesis by simp
    qed
  next
    case False
    then have "verify_stride hs ns at width i = Some None"
      by (subst verify_stride.simps) simp
    moreover from False less(2) have "\<forall>j<width. \<not> occurs_at hs ns (at + j)" by simp
    ultimately show ?thesis by simp
  qed
qed

lemma occurs_at_drop: "occurs_at (drop i hs) ns j \<longleftrightarrow> occurs_at hs ns (i + j)"
  by (simp add: occurs_at_def add.commute)

lemma occurs_at_prefix:
  assumes "occurs_at hs ns p" and "4 \<le> length ns"
  shows "take 4 (drop p hs) = take 4 ns"
proof -
  from assms(1) have "take 4 (take (length ns) (drop p hs)) = take 4 ns"
    by (simp add: occurs_at_def)
  with assms(2) show ?thesis by (simp add: min_def)
qed

lemma tail_scan:
  assumes wf: "needle_wf n" and ne: "ndl_bytes n \<noteq> []"
    and u: "\<not> sc \<or> (\<forall>b \<in> set (ndl_bytes n). b < 0x80) \<or> 5 \<le> length (ndl_bytes n)"
    and i: "i \<le> length hs" and inv: "\<forall>j<i. \<not> occurs_at hs (ndl_bytes n) j"
  shows "\<exists>r. (case strzl_naive_find_substr sc (tail_haystack p hs i) n of None \<Rightarrow> None
               | Some tail_match \<Rightarrow> Some (i + tail_match)) = Some r
            \<and> scan_result hs (ndl_bytes n) (examined_offset n) r"
proof -
  let ?ns = "ndl_bytes n" and ?off = "examined_offset n"
  from strzl_naive_find_substr_scan [OF wf ne u, of "tail_haystack p hs i"]
  obtain t where t: "strzl_naive_find_substr sc (tail_haystack p hs i) n = Some t"
    "scan_result (drop i hs) ?ns ?off t"
    by (auto simp: tail_haystack_def)
  from t(2) consider
      "occurs_at hs ?ns (i + t)" "t + ?off + length ?ns \<le> length hs - i"
      "\<forall>j<t. \<not> occurs_at hs ?ns (i + j)"
    | "t = length hs - i" "\<forall>j. j + ?off + length ?ns \<le> length hs - i \<longrightarrow> \<not> occurs_at hs ?ns (i + j)"
    by (auto simp: scan_result_def occurs_at_drop)
  then have "scan_result hs ?ns ?off (i + t)"
  proof cases
    case 1
    from inv 1(1,3) have "\<forall>j<i + t. \<not> occurs_at hs ?ns j" by (rule scan_hit)
    moreover from 1(2) i have "i + t + ?off + length ?ns \<le> length hs" by linarith
    ultimately show ?thesis using 1(1) by (simp add: scan_result_def)
  next
    case 2
    have "\<not> occurs_at hs ?ns q" if q: "q + ?off + length ?ns \<le> length hs" for q
    proof (cases "q < i")
      case True with inv show ?thesis by simp
    next
      case False
      with q have "(q - i) + ?off + length ?ns \<le> length hs - i" "i + (q - i) = q" by simp_all
      with 2(2) show ?thesis by metis
    qed
    with 2(1) i show ?thesis by (simp add: scan_result_def)
  qed
  with t(1) show ?thesis by simp
qed

lemma avx2_loop_scan:
  assumes wf: "needle_wf n" and len: "4 \<le> length (ndl_bytes n)"
    and u: "\<not> sc \<or> (\<forall>b \<in> set (ndl_bytes n). b < 0x80) \<or> 5 \<le> length (ndl_bytes n)"
    and pre: "n_prefix = mm256_set1_epi32 (le_u32 (take 4 (ndl_bytes n)))"
  shows "i \<le> length hs \<Longrightarrow> \<forall>j<i. \<not> occurs_at hs (ndl_bytes n) j \<Longrightarrow>
         \<exists>r. avx2_loop sc p hs n n_prefix i = Some r
            \<and> vector_result hs (ndl_bytes n) (examined_offset n) r"
proof (induction "length hs - i" arbitrary: i rule: less_induct)
  case less
  let ?ns = "ndl_bytes n"
  have ne: "?ns \<noteq> []" using len by auto
  show ?case
  proof (cases "i + length ?ns + 32 \<le> length hs")
    case True
    from True len obtain masks where masks: "avx2_masks hs i n_prefix = Some masks"
      using avx2_masks_total [of i hs n_prefix] by auto
    from True have "i + 32 + length ?ns \<le> Suc (length hs)" by simp
    from verify_stride_first [OF this, of 0] obtain v where
      v: "verify_stride hs ?ns i 32 0 = Some v"
        "case v of None \<Rightarrow> \<forall>j<32. \<not> occurs_at hs ?ns (i + j)
          | Some r \<Rightarrow> \<exists>k<32. r = i + k \<and> occurs_at hs ?ns r \<and> (\<forall>j<k. \<not> occurs_at hs ?ns (i + j))"
      by auto
    have cont: "\<exists>r. avx2_loop sc p hs n n_prefix (i + 32) = Some r
            \<and> vector_result hs ?ns (examined_offset n) r"
      if "\<forall>j<32. \<not> occurs_at hs ?ns (i + j)"
    proof -
      from less(3) that have "\<forall>j<i + 32. \<not> occurs_at hs ?ns j" by (rule scan_miss)
      moreover from True have "length hs - (i + 32) < length hs - i" "i + 32 \<le> length hs"
        by simp_all
      ultimately show ?thesis by (intro less(1))
    qed
    show ?thesis
    proof (cases v)
      case None
      with v(2) have none: "\<forall>j<32. \<not> occurs_at hs ?ns (i + j)" by simp
      have "avx2_loop sc p hs n n_prefix i = avx2_loop sc p hs n n_prefix (i + 32)"
        unfolding avx2_loop.simps [of sc p hs n n_prefix i] masks v(1) None using True by simp
      with cont [OF none] show ?thesis by simp
    next
      case (Some r)
      with v(2) obtain k where k: "k < 32" "r = i + k" "occurs_at hs ?ns r"
        "\<forall>j<k. \<not> occurs_at hs ?ns (i + j)"
        by auto
      from occurs_at_prefix [OF k(3) len] k(2) have "take 4 (drop (i + k) hs) = take 4 ?ns" by simp
      moreover from True len have "i + 35 \<le> length hs" by simp
      ultimately have "masks \<noteq> 0"
        using avx2_masks_hit [of i hs k ?ns] k(1) masks pre by auto
      then have "avx2_loop sc p hs n n_prefix i = Some r"
        unfolding avx2_loop.simps [of sc p hs n n_prefix i] masks v(1) Some using True by simp
      moreover from less(3) k(3,4) have "\<forall>j<r. \<not> occurs_at hs ?ns j"
        unfolding k(2) by (intro scan_hit) simp_all
      moreover from True k(1,2) have "r + 1 + length ?ns \<le> length hs" by simp
      ultimately show ?thesis using k(3) by (simp add: vector_result_def)
    qed
  next
    case False
    from tail_scan [OF wf ne u less(2,3), of p]
    show ?thesis
      unfolding avx2_loop.simps [of sc p hs n n_prefix i] using False less(2)
      by (auto simp: vector_result_def)
  qed
qed

lemma neon_loop_scan:
  assumes wf: "needle_wf n" and len: "4 \<le> length (ndl_bytes n)"
    and u: "\<not> sc \<or> (\<forall>b \<in> set (ndl_bytes n). b < 0x80) \<or> 5 \<le> length (ndl_bytes n)"
    and pre: "n_prefix = vld1q_dup_u32 (le_u32 (take 4 (ndl_bytes n)))"
  shows "i \<le> length hs \<Longrightarrow> \<forall>j<i. \<not> occurs_at hs (ndl_bytes n) j \<Longrightarrow>
         \<exists>r. neon_loop sc p hs n n_prefix i = Some r
            \<and> vector_result hs (ndl_bytes n) (examined_offset n) r"
proof (induction "length hs - i" arbitrary: i rule: less_induct)
  case less
  let ?ns = "ndl_bytes n"
  have ne: "?ns \<noteq> []" using len by auto
  show ?case
  proof (cases "i + length ?ns + 16 \<le> length hs")
    case True
    from True len obtain hm where hm: "neon_has_match hs i n_prefix = Some hm"
      using neon_has_match_total [of i hs n_prefix] by auto
    from True have "i + 16 + length ?ns \<le> Suc (length hs)" by simp
    from verify_stride_first [OF this, of 0] obtain v where
      v: "verify_stride hs ?ns i 16 0 = Some v"
        "case v of None \<Rightarrow> \<forall>j<16. \<not> occurs_at hs ?ns (i + j)
          | Some r \<Rightarrow> \<exists>k<16. r = i + k \<and> occurs_at hs ?ns r \<and> (\<forall>j<k. \<not> occurs_at hs ?ns (i + j))"
      by auto
    have cont: "\<exists>r. neon_loop sc p hs n n_prefix (i + 16) = Some r
            \<and> vector_result hs ?ns (examined_offset n) r"
      if "\<forall>j<16. \<not> occurs_at hs ?ns (i + j)"
    proof -
      from less(3) that have "\<forall>j<i + 16. \<not> occurs_at hs ?ns j" by (rule scan_miss)
      moreover from True have "length hs - (i + 16) < length hs - i" "i + 16 \<le> length hs"
        by simp_all
      ultimately show ?thesis by (intro less(1))
    qed
    show ?thesis
    proof (cases v)
      case None
      with v(2) have none: "\<forall>j<16. \<not> occurs_at hs ?ns (i + j)" by simp
      have "neon_loop sc p hs n n_prefix i = neon_loop sc p hs n n_prefix (i + 16)"
        unfolding neon_loop.simps [of sc p hs n n_prefix i] hm v(1) None using True by simp
      with cont [OF none] show ?thesis by simp
    next
      case (Some r)
      with v(2) obtain k where k: "k < 16" "r = i + k" "occurs_at hs ?ns r"
        "\<forall>j<k. \<not> occurs_at hs ?ns (i + j)"
        by auto
      from occurs_at_prefix [OF k(3) len] k(2) have "take 4 (drop (i + k) hs) = take 4 ?ns" by simp
      moreover from True len have "i + 19 \<le> length hs" by simp
      ultimately have "hm"
        using neon_has_match_hit [of i hs k ?ns] k(1) hm pre by auto
      then have "neon_loop sc p hs n n_prefix i = Some r"
        unfolding neon_loop.simps [of sc p hs n n_prefix i] hm v(1) Some using True by simp
      moreover from less(3) k(3,4) have "\<forall>j<r. \<not> occurs_at hs ?ns j"
        unfolding k(2) by (intro scan_hit) simp_all
      moreover from True k(1,2) have "r + 1 + length ?ns \<le> length hs" by simp
      ultimately show ?thesis using k(3) by (simp add: vector_result_def)
    qed
  next
    case False
    from tail_scan [OF wf ne u less(2,3), of p]
    show ?thesis
      unfolding neon_loop.simps [of sc p hs n n_prefix i] using False less(2)
      by (auto simp: vector_result_def)
  qed
qed

text \<open>
  Both vector entry points return, and what they return is a \<open>vector_result\<close>.
\<close>

theorem strzl_avx2_find_substr_scan:
  assumes wf: "needle_wf n" and ne: "ndl_bytes n \<noteq> []"
    and u: "\<not> sc \<or> (\<forall>b \<in> set (ndl_bytes n). b < 0x80) \<or> 5 \<le> length (ndl_bytes n)"
  shows "\<exists>r. strzl_avx2_find_substr sc h n = Some r
           \<and> vector_result (hay_bytes h) (ndl_bytes n) (examined_offset n) r"
proof (cases "length (ndl_bytes n) < 4")
  case True
  with strzl_naive_find_substr_scan [OF wf ne u, of h] show ?thesis
    by (auto simp: strzl_avx2_find_substr_def vector_result_def)
next
  case False
  then have len: "4 \<le> length (ndl_bytes n)" by simp
  then have ld: "load_u32 (ndl_bytes n) 0 = Some (le_u32 (take 4 (ndl_bytes n)))"
    by (simp add: load_u32_def)
  from avx2_loop_scan [OF wf len u refl, of 0 "hay_bytes h" "hay_ptr h"] False
  show ?thesis
    by (simp add: strzl_avx2_find_substr_def ld)
qed

theorem strzl_neon_find_substr_scan:
  assumes wf: "needle_wf n" and ne: "ndl_bytes n \<noteq> []"
    and u: "\<not> sc \<or> (\<forall>b \<in> set (ndl_bytes n). b < 0x80) \<or> 5 \<le> length (ndl_bytes n)"
  shows "\<exists>r. strzl_neon_find_substr sc h n = Some r
           \<and> vector_result (hay_bytes h) (ndl_bytes n) (examined_offset n) r"
proof (cases "length (ndl_bytes n) < 4")
  case True
  with strzl_naive_find_substr_scan [OF wf ne u, of h] show ?thesis
    by (auto simp: strzl_neon_find_substr_def vector_result_def)
next
  case False
  then have len: "4 \<le> length (ndl_bytes n)" by simp
  then have ld: "load_u32 (ndl_bytes n) 0 = Some (le_u32 (take 4 (ndl_bytes n)))"
    by (simp add: load_u32_def)
  from neon_loop_scan [OF wf len u refl, of 0 "hay_bytes h" "hay_ptr h"] False
  show ?thesis
    by (simp add: strzl_neon_find_substr_def ld)
qed

lemma vector_result_small_offset:
  "off \<le> 1 \<Longrightarrow> vector_result hs ns off r \<Longrightarrow> scan_result hs ns off r"
  by (auto simp: vector_result_def scan_result_def)

text \<open>
  The three back-ends return the same index whenever the scalar SWAR templates are built
  from non-negative values and the general scanner skips at most one trailing candidate.
\<close>

theorem backends_agree_small_offset:
  assumes wf: "needle_wf n"
    and u: "\<not> sc \<or> (\<forall>b \<in> set (ndl_bytes n). b < 0x80) \<or> 5 \<le> length (ndl_bytes n)"
    and off: "examined_offset n \<le> 1"
  shows "strzl_avx2_find_substr sc h n = strzl_naive_find_substr sc h n
       \<and> strzl_neon_find_substr sc h n = strzl_naive_find_substr sc h n"
proof (cases "ndl_bytes n = []")
  case True
  then show ?thesis by (simp add: strzl_avx2_find_substr_def strzl_neon_find_substr_def)
next
  case ne: False
  from strzl_naive_find_substr_scan [OF wf ne u, of h] obtain r where
    r: "strzl_naive_find_substr sc h n = Some r"
       "scan_result (hay_bytes h) (ndl_bytes n) (examined_offset n) r" by blast
  from strzl_avx2_find_substr_scan [OF wf ne u, of h] obtain a where
    a: "strzl_avx2_find_substr sc h n = Some a"
       "vector_result (hay_bytes h) (ndl_bytes n) (examined_offset n) a" by blast
  from strzl_neon_find_substr_scan [OF wf ne u, of h] obtain b where
    b: "strzl_neon_find_substr sc h n = Some b"
       "vector_result (hay_bytes h) (ndl_bytes n) (examined_offset n) b" by blast
  from vector_result_small_offset [OF off a(2)] r(2) have "a = r" by (rule scan_result_unique)
  moreover from vector_result_small_offset [OF off b(2)] r(2) have "b = r"
    by (rule scan_result_unique)
  ultimately show ?thesis using r a b by simp
qed

subsection \<open>Reads before the haystack, and addresses that wrap\<close>

text \<open>
  The general scanner is safe only because its cursor starts at \<open>anomaly_offset\<close>: started
  at 0 on a haystack that begins with the needle's anomaly, the prefix comparison would
  read before the haystack.
\<close>

lemma prefix_read_below_base:
  "find_substr_loop [0x65, 0x64, 0x6C, 0x65, 0x78, 0x78] [0x6E, 0x65, 0x65, 0x64, 0x6C, 0x65] 2
     (le_u32 [0x65, 0x64, 0x6C, 0x65]) 0 0 = None"
  by code_simp

text \<open>
  Rounding an address up to a multiple of 16 wraps to 0 within 15 bytes of the end of the
  address space. In every case the rounded address is less than 16 bytes away (modulo
  \<open>2 ^ 64\<close>) and aligned, so \<^verbatim>\<open>strzl_neon_count_char\<close> hands a haystack so close to the
  end of the address space to the scalar counter as a whole.
\<close>

lemma round_up_wraps:
  "strzl_divide_round_up 0xFFFFFFFFFFFFFFF8 16 = Some 0
   \<and> strzl_divide_round_up 0x1001 16 = Some 0x101"
  by code_simp

lemma aligned_distance:
  fixes x :: u64
  defines "d \<equiv> (x + 15) div 16 * 16 - x"
  shows "unat d < 16" and "(unat x + unat d) mod 16 = 0"
proof -
  define a where "a = x + 15"
  have eq: "a div 16 * 16 = a - a mod 16" by (simp add: minus_mod_eq_div_mult)
  have m: "a mod 16 \<le> 15"
  proof -
    have "unat (a mod 16) < 16" by (simp add: unat_mod)
    then show ?thesis by (simp add: word_le_nat_alt)
  qed
  have d: "d = 15 - a mod 16" unfolding d_def a_def [symmetric] eq by (simp add: a_def)
  have "d \<le> 15" unfolding d using m by (rule word_sub_le)
  then show "unat d < 16" by (simp add: word_le_nat_alt)
  have "x + d = a div 16 * 16" unfolding d_def a_def by simp
  moreover have "unat (a div 16 * 16) = unat a div 16 * 16"
  proof -
    have "unat (a - a mod 16) = unat a - unat (a mod 16)"
      by (rule unat_sub) (simp add: word_le_nat_alt unat_mod)
    then show ?thesis unfolding eq by (simp add: unat_mod minus_mod_eq_div_mult)
  qed
  ultimately have "unat (x + d) mod 16 = 0" by simp
  moreover have "unat (x + d) = (unat x + unat d) mod 2 ^ 64" by (simp add: unat_word_ariths)
  moreover have "(unat x + unat d) mod 2 ^ 64 mod 16 = (unat x + unat d) mod 16"
    by (rule mod_mod_cancel) simp
  ultimately show "(unat x + unat d) mod 16 = 0" by simp
qed

lemma strzl_divide_round_up_aligned:
  assumes "strzl_divide_round_up x 16 = Some q"
  shows "unat (q * 16 - x) < 16 \<and> (unat x + unat (q * 16 - x)) mod 16 = 0"
proof -
  from assms have "q = (x + 15) div 16" by (simp add: strzl_divide_round_up_def)
  with aligned_distance [of x] show ?thesis by simp
qed

lemma neon_count_top_of_address_space:
  "strzl_neon_count_char False
     \<lparr>hay_ptr = 0xFFFFFFFFFFFFFFF8, hay_bytes = [0x61, 0x62, 0x61, 0x61]\<rparr> 0x61 = Some 3"
  by (simp add: strzl_neon_count_char_def strzl_divide_round_up_def
      strzl_naive_count_char_unsigned)

section \<open>The claims\<close>

subsection \<open>Reads stay inside the spans\<close>

text \<open>
  C6. For every haystack and every needle descriptor that satisfies the documented
  precondition, each search and count operation reads only inside the haystack and the
  needle buffer: no guarded read (the byte reads of prologue and epilogue, the 4-, 8-,
  16- and 32-byte loads, the prefix read at \<^verbatim>\<open>h_ptr - anomaly_offset\<close>, which must stay
  at or after the haystack base as well as before its end, the lookup table) takes its
  out-of-range branch, so every operation returns a value. The short kernels called on
  their own need a needle buffer of their length.
\<close>

theorem reads_in_bounds:
  "needle_wf n \<Longrightarrow>
     (\<exists>r. strzl_naive_find_substr sc h n = Some r)
   \<and> (\<exists>r. strzl_avx2_find_substr sc h n = Some r)
   \<and> (\<exists>r. strzl_neon_find_substr sc h n = Some r)
   \<and> (\<exists>r. strzl_naive_count_char sc h c = Some r)
   \<and> (\<exists>r. strzl_neon_count_char sc h c = Some r)
   \<and> (\<exists>r. strzl_naive_find_char sc h c = Some r)
   \<and> (2 \<le> length k \<longrightarrow> (\<exists>r. strzl_naive_find_2chars sc h k = Some r))
   \<and> (3 \<le> length k \<longrightarrow> (\<exists>r. strzl_naive_find_3chars sc h k = Some r))
   \<and> (4 \<le> length k \<longrightarrow> (\<exists>r. strzl_naive_find_4chars sc h k = Some r))"
proof -
  assume wf: "needle_wf n"
  have "\<exists>r. strzl_naive_find_substr sc h n = Some r"
    using strzl_naive_find_substr_bounded [OF wf] by blast
  moreover have "\<exists>r. strzl_avx2_find_substr sc h n = Some r"
    using strzl_avx2_find_substr_bounded [OF wf] by blast
  moreover have "\<exists>r. strzl_neon_find_substr sc h n = Some r"
    using strzl_neon_find_substr_bounded [OF wf] by blast
  moreover have "\<exists>r. strzl_naive_find_char sc h c = Some r"
    using strzl_naive_find_char_bounded by blast
  moreover have "2 \<le> length k \<longrightarrow> (\<exists>r. strzl_naive_find_2chars sc h k = Some r)"
    using strzl_naive_find_2chars_bounded by blast
  moreover have "3 \<le> length k \<longrightarrow> (\<exists>r. strzl_naive_find_3chars sc h k = Some r)"
    using strzl_naive_find_3chars_bounded by blast
  moreover have "4 \<le> length k \<longrightarrow> (\<exists>r. strzl_naive_find_4chars sc h k = Some r)"
    using strzl_naive_find_4chars_bounded by blast
  ultimately show ?thesis
    using strzl_naive_count_char_total strzl_neon_count_char_total by blast
qed

theorem reads_in_bounds_witness:
  "needle_wf \<lparr>ndl_bytes = [0x6E, 0x65, 0x65, 0x64, 0x6C, 0x65], anomaly_offset = 2\<rparr>
   \<and> 4 \<le> length [0x6E, 0x65, 0x65, 0x64 :: byte]
   \<and> (\<exists>r. strzl_naive_find_substr True
              \<lparr>hay_ptr = 3, hay_bytes = replicate 15 0x78 @ [0x6E, 0x65, 0x65, 0x64, 0x6C, 0x65, 0x79, 0x79]\<rparr>
              \<lparr>ndl_bytes = [0x6E, 0x65, 0x65, 0x64, 0x6C, 0x65], anomaly_offset = 2\<rparr> = Some r)
   \<and> (\<exists>r. strzl_neon_count_char True
              \<lparr>hay_ptr = 3, hay_bytes = replicate 15 0x78 @ [0x6E, 0x65, 0x65, 0x64, 0x6C, 0x65, 0x79, 0x79]\<rparr> 0x65 = Some r)
   \<and> (\<exists>r. strzl_naive_find_4chars True
              \<lparr>hay_ptr = 3, hay_bytes = replicate 15 0x78 @ [0x6E, 0x65, 0x65, 0x64, 0x6C, 0x65, 0x79, 0x79]\<rparr>
              [0x6E, 0x65, 0x65, 0x64] = Some r)
   \<and> strzl_naive_find_substr True
         \<lparr>hay_ptr = 3, hay_bytes = replicate 15 0x78 @ [0x6E, 0x65, 0x65, 0x64, 0x6C, 0x65, 0x79, 0x79]\<rparr>
         \<lparr>ndl_bytes = [0x6E, 0x65, 0x65, 0x64, 0x6C, 0x65], anomaly_offset = 2\<rparr> = Some 15"
proof -
  have wf: "needle_wf \<lparr>ndl_bytes = [0x6E, 0x65, 0x65, 0x64, 0x6C, 0x65], anomaly_offset = 2\<rparr>"
    by (simp add: needle_wf_def)
  have len: "4 \<le> length [0x6E, 0x65, 0x65, 0x64 :: byte]" by simp
  have hit: "strzl_naive_find_substr True
         \<lparr>hay_ptr = 3, hay_bytes = replicate 15 0x78 @ [0x6E, 0x65, 0x65, 0x64, 0x6C, 0x65, 0x79, 0x79]\<rparr>
         \<lparr>ndl_bytes = [0x6E, 0x65, 0x65, 0x64, 0x6C, 0x65], anomaly_offset = 2\<rparr> = Some 15"
    by code_simp
  from reads_in_bounds [OF wf, where sc = True and k = "[0x6E, 0x65, 0x65, 0x64]" and c = "0x65" and
      h = "\<lparr>hay_ptr = 3, hay_bytes = replicate 15 0x78 @ [0x6E, 0x65, 0x65, 0x64, 0x6C, 0x65, 0x79, 0x79]\<rparr>"]
    wf len hit
  show ?thesis by blast
qed

subsection \<open>The miss sentinel\<close>

text \<open>
  C7. When the needle is longer than the haystack, the search (scalar, AVX2 and NEON
  entry point alike) returns exactly the haystack length. Moreover a search never
  returns anything beyond the haystack length: a result is either an index inside the
  haystack or exactly the haystack length, so a miss is never signalled by another value.
\<close>

theorem too_long_needle_miss:
  "(length (hay_bytes h) < length (ndl_bytes n) \<longrightarrow>
       strzl_naive_find_substr sc h n = Some (length (hay_bytes h))
     \<and> strzl_avx2_find_substr sc h n = Some (length (hay_bytes h))
     \<and> strzl_neon_find_substr sc h n = Some (length (hay_bytes h)))
   \<and> (needle_wf n \<longrightarrow>
       (\<exists>r. strzl_naive_find_substr sc h n = Some r \<and> r \<le> length (hay_bytes h))
     \<and> (\<exists>r. strzl_avx2_find_substr sc h n = Some r \<and> r \<le> length (hay_bytes h))
     \<and> (\<exists>r. strzl_neon_find_substr sc h n = Some r \<and> r \<le> length (hay_bytes h)))"
proof (intro conjI impI)
  assume short: "length (hay_bytes h) < length (ndl_bytes n)"
  show naive: "strzl_naive_find_substr sc h n = Some (length (hay_bytes h))"
    using short by (simp add: strzl_naive_find_substr_def)
  have tail: "strzl_naive_find_substr sc (tail_haystack (hay_ptr h) (hay_bytes h) 0) n
                = Some (length (hay_bytes h))"
    using short by (simp add: strzl_naive_find_substr_def tail_haystack_def)
  show "strzl_avx2_find_substr sc h n = Some (length (hay_bytes h))"
  proof (cases "length (ndl_bytes n) < 4")
    case True
    with naive show ?thesis by (simp add: strzl_avx2_find_substr_def)
  next
    case False
    then have "load_u32 (ndl_bytes n) 0 = Some (le_u32 (take 4 (drop 0 (ndl_bytes n))))"
      by (intro load_u32_Some) simp
    with False short tail show ?thesis
      unfolding strzl_avx2_find_substr_def
        avx2_loop.simps [of sc "hay_ptr h" "hay_bytes h" n _ 0]
      by simp
  qed
  show "strzl_neon_find_substr sc h n = Some (length (hay_bytes h))"
  proof (cases "length (ndl_bytes n) < 4")
    case True
    with naive show ?thesis by (simp add: strzl_neon_find_substr_def)
  next
    case False
    then have "load_u32 (ndl_bytes n) 0 = Some (le_u32 (take 4 (drop 0 (ndl_bytes n))))"
      by (intro load_u32_Some) simp
    with False short tail show ?thesis
      unfolding strzl_neon_find_substr_def
        neon_loop.simps [of sc "hay_ptr h" "hay_bytes h" n _ 0]
      by simp
  qed
next
  assume "needle_wf n"
  then show "\<exists>r. strzl_naive_find_substr sc h n = Some r \<and> r \<le> length (hay_bytes h)"
    by (rule strzl_naive_find_substr_bounded)
next
  assume "needle_wf n"
  then show "\<exists>r. strzl_avx2_find_substr sc h n = Some r \<and> r \<le> length (hay_bytes h)"
    by (rule strzl_avx2_find_substr_bounded)
next
  assume "needle_wf n"
  then show "\<exists>r. strzl_neon_find_substr sc h n = Some r \<and> r \<le> length (hay_bytes h)"
    by (rule strzl_neon_find_substr_bounded)
qed

theorem too_long_needle_miss_witness:
  "length (hay_bytes \<lparr>hay_ptr = 5, hay_bytes = [0x61, 0x62, 0x63]\<rparr>)
     < length (ndl_bytes \<lparr>ndl_bytes = [0x61, 0x62, 0x63, 0x64, 0x65, 0x66], anomaly_offset = 1\<rparr>)
   \<and> needle_wf \<lparr>ndl_bytes = [0x61, 0x62, 0x63, 0x64, 0x65, 0x66], anomaly_offset = 1\<rparr>
   \<and> strzl_naive_find_substr True \<lparr>hay_ptr = 5, hay_bytes = [0x61, 0x62, 0x63]\<rparr>
        \<lparr>ndl_bytes = [0x61, 0x62, 0x63, 0x64, 0x65, 0x66], anomaly_offset = 1\<rparr> = Some 3
   \<and> strzl_avx2_find_substr True \<lparr>hay_ptr = 5, hay_bytes = [0x61, 0x62, 0x63]\<rparr>
        \<lparr>ndl_bytes = [0x61, 0x62, 0x63, 0x64, 0x65, 0x66], anomaly_offset = 1\<rparr> = Some 3
   \<and> strzl_neon_find_substr True \<lparr>hay_ptr = 5, hay_bytes = [0x61, 0x62, 0x63]\<rparr>
        \<lparr>ndl_bytes = [0x61, 0x62, 0x63, 0x64, 0x65, 0x66], anomaly_offset = 1\<rparr> = Some 3"
proof -
  have short: "length (hay_bytes \<lparr>hay_ptr = 5, hay_bytes = [0x61, 0x62, 0x63]\<rparr>)
     < length (ndl_bytes \<lparr>ndl_bytes = [0x61, 0x62, 0x63, 0x64, 0x65, 0x66], anomaly_offset = 1\<rparr>)"
    by simp
  have wf: "needle_wf \<lparr>ndl_bytes = [0x61, 0x62, 0x63, 0x64, 0x65, 0x66], anomaly_offset = 1\<rparr>"
    by (simp add: needle_wf_def)
  from too_long_needle_miss [of "\<lparr>hay_ptr = 5, hay_bytes = [0x61, 0x62, 0x63]\<rparr>"
      "\<lparr>ndl_bytes = [0x61, 0x62, 0x63, 0x64, 0x65, 0x66], anomaly_offset = 1\<rparr>" True] short wf
  show ?thesis by simp
qed

subsection \<open>The empty needle\<close>

text \<open>
  C8. Searching any haystack, the empty one included, for a needle of length 0 returns 0,
  on every entry point and whatever the anomaly offset says.
\<close>

theorem empty_needle_returns_zero:
  "strzl_naive_find_substr sc h \<lparr>ndl_bytes = [], anomaly_offset = a\<rparr> = Some 0
   \<and> strzl_avx2_find_substr sc h \<lparr>ndl_bytes = [], anomaly_offset = a\<rparr> = Some 0
   \<and> strzl_neon_find_substr sc h \<lparr>ndl_bytes = [], anomaly_offset = a\<rparr> = Some 0
   \<and> strzl_naive_find_substr sc \<lparr>hay_ptr = p, hay_bytes = []\<rparr>
        \<lparr>ndl_bytes = [], anomaly_offset = a\<rparr> = Some 0"
  by (simp add: strzl_naive_find_substr_def strzl_avx2_find_substr_def
      strzl_neon_find_substr_def)

subsection \<open>The anomaly offset is ignored for short needles\<close>

text \<open>
  C9. Two needle descriptors with the same bytes, of length at most 4, give the same
  result of \<^verbatim>\<open>strzl_naive_find_substr\<close> on every haystack, whatever their
  anomaly offsets are: for needle lengths 0 to 4 the field is never read.
\<close>

theorem anomaly_offset_unused_short:
  "ndl_bytes n1 = ndl_bytes n2 \<Longrightarrow> length (ndl_bytes n1) \<le> 4 \<Longrightarrow>
   strzl_naive_find_substr sc h n1 = strzl_naive_find_substr sc h n2"
proof -
  assume eq: "ndl_bytes n1 = ndl_bytes n2" and "length (ndl_bytes n1) \<le> 4"
  then have "length (ndl_bytes n2) \<le> 4" by simp
  then consider "length (ndl_bytes n2) = 0" | "length (ndl_bytes n2) = 1"
    | "length (ndl_bytes n2) = 2" | "length (ndl_bytes n2) = 3" | "length (ndl_bytes n2) = 4"
    by linarith
  then show ?thesis
    by cases (simp_all add: strzl_naive_find_substr_def Let_def eq)
qed

theorem anomaly_offset_unused_short_witness:
  "ndl_bytes \<lparr>ndl_bytes = [0x6A, 0x75, 0x6D, 0x70], anomaly_offset = 0\<rparr>
     = ndl_bytes \<lparr>ndl_bytes = [0x6A, 0x75, 0x6D, 0x70], anomaly_offset = 77\<rparr>
   \<and> length (ndl_bytes \<lparr>ndl_bytes = [0x6A, 0x75, 0x6D, 0x70], anomaly_offset = 0\<rparr>) \<le> 4
   \<and> strzl_naive_find_substr True \<lparr>hay_ptr = 1, hay_bytes = [0x20, 0x6A, 0x75, 0x6D, 0x70, 0x73]\<rparr>
        \<lparr>ndl_bytes = [0x6A, 0x75, 0x6D, 0x70], anomaly_offset = 0\<rparr>
     = strzl_naive_find_substr True \<lparr>hay_ptr = 1, hay_bytes = [0x20, 0x6A, 0x75, 0x6D, 0x70, 0x73]\<rparr>
        \<lparr>ndl_bytes = [0x6A, 0x75, 0x6D, 0x70], anomaly_offset = 77\<rparr>"
proof (intro conjI)
  show "strzl_naive_find_substr True \<lparr>hay_ptr = 1, hay_bytes = [0x20, 0x6A, 0x75, 0x6D, 0x70, 0x73]\<rparr>
        \<lparr>ndl_bytes = [0x6A, 0x75, 0x6D, 0x70], anomaly_offset = 0\<rparr>
     = strzl_naive_find_substr True \<lparr>hay_ptr = 1, hay_bytes = [0x20, 0x6A, 0x75, 0x6D, 0x70, 0x73]\<rparr>
        \<lparr>ndl_bytes = [0x6A, 0x75, 0x6D, 0x70], anomaly_offset = 77\<rparr>"
    by (rule anomaly_offset_unused_short) simp_all
qed simp_all

subsection \<open>Finding and counting a single byte agree\<close>

text \<open>
  C10. For every haystack and every byte value, \<^verbatim>\<open>strzl_naive_find_char\<close> reports a hit
  (an index below the haystack length) exactly when \<^verbatim>\<open>strzl_naive_count_char\<close> is
  positive: both kernels share the prologue, the per-slice indicator word and the
  epilogue.
\<close>

theorem find_char_hit_iff_count_positive:
  "\<exists>r k. strzl_naive_find_char sc h c = Some r \<and> strzl_naive_count_char sc h c = Some k
         \<and> (r < length (hay_bytes h) \<longleftrightarrow> 0 < k)"
  using find_count_head [of sc "hay_ptr h" "hay_bytes h" c 0 0]
  by (simp add: strzl_naive_find_char_def strzl_naive_count_char_def)

subsection \<open>Where the code departs from the specification\<close>

text \<open>
  C1 (soundness) fails where plain \<^verbatim>\<open>char\<close> is signed: the needle byte \<open>0x80\<close> is
  sign-extended into the SWAR template, whose upper bytes become \<open>0xFF\<close>. The search
  for the one-byte needle \<open>0x80\<close> returns index 1, where the haystack holds \<open>0xFF\<close>;
  the search for the two-byte needle \<open>0x80 0x41\<close> returns index 0, where the haystack
  holds \<open>0x80 0xFF\<close>.
\<close>

theorem soundness_fails_signed_char:
  "strzl_naive_find_substr True \<lparr>hay_ptr = 0, hay_bytes = [0x00, 0xFF, 0, 0, 0, 0, 0, 0]\<rparr>
      \<lparr>ndl_bytes = [0x80], anomaly_offset = 0\<rparr> = Some 1
   \<and> take 1 (drop 1 [0x00, 0xFF, 0, 0, 0, 0, 0, 0 :: byte]) \<noteq> [0x80]
   \<and> strzl_naive_find_substr True \<lparr>hay_ptr = 0, hay_bytes = [0x80, 0xFF, 0, 0, 0, 0, 0, 0]\<rparr>
      \<lparr>ndl_bytes = [0x80, 0x41], anomaly_offset = 0\<rparr> = Some 0
   \<and> take 2 (drop 0 [0x80, 0xFF, 0, 0, 0, 0, 0, 0 :: byte]) \<noteq> [0x80, 0x41]"
  by code_simp

text \<open>
  C2 (completeness) fails for every anomaly offset other than 0: the general scanner
  starts its cursor at \<^verbatim>\<open>h.ptr + anomaly_offset\<close> but still stops at
  \<^verbatim>\<open>h_ptr + n.len <= h_end\<close>, so the last \<open>anomaly_offset\<close> candidate positions are
  never examined. Searching \<open>abcdef\<close> for \<open>abcdef\<close> with anomaly offset 1 returns the
  haystack length 6 although the needle occurs at index 0; this does not depend on the
  signedness of \<^verbatim>\<open>char\<close>.
\<close>

theorem completeness_fails_anomaly_offset:
  "strzl_naive_find_substr True \<lparr>hay_ptr = 0, hay_bytes = [0x61, 0x62, 0x63, 0x64, 0x65, 0x66]\<rparr>
      \<lparr>ndl_bytes = [0x61, 0x62, 0x63, 0x64, 0x65, 0x66], anomaly_offset = 1\<rparr> = Some 6
   \<and> strzl_naive_find_substr False \<lparr>hay_ptr = 0, hay_bytes = [0x61, 0x62, 0x63, 0x64, 0x65, 0x66]\<rparr>
      \<lparr>ndl_bytes = [0x61, 0x62, 0x63, 0x64, 0x65, 0x66], anomaly_offset = 1\<rparr> = Some 6
   \<and> anomaly_offset \<lparr>ndl_bytes = [0x61, 0x62, 0x63, 0x64, 0x65, 0x66], anomaly_offset = 1\<rparr> + 4
       \<le> length [0x61, 0x62, 0x63, 0x64, 0x65, 0x66 :: byte]
   \<and> take 6 (drop 0 [0x61, 0x62, 0x63, 0x64, 0x65, 0x66 :: byte])
       = [0x61, 0x62, 0x63, 0x64, 0x65, 0x66]"
  by code_simp

text \<open>
  C3 (first match) fails where plain \<^verbatim>\<open>char\<close> is signed: searching for the byte
  \<open>0x80\<close> returns index 2 (a \<open>0xFF\<close> byte) although the needle occurs at index 1.
\<close>

theorem first_match_fails_signed_char:
  "strzl_naive_find_substr True \<lparr>hay_ptr = 0, hay_bytes = [0x00, 0x80, 0xFF, 0, 0, 0, 0, 0]\<rparr>
      \<lparr>ndl_bytes = [0x80], anomaly_offset = 0\<rparr> = Some 2
   \<and> take 1 (drop 1 [0x00, 0x80, 0xFF, 0, 0, 0, 0, 0 :: byte]) = [0x80]"
  by code_simp

text \<open>
  C4 (counting) fails where plain \<^verbatim>\<open>char\<close> is signed: in an aligned slice of eight
  \<open>0x80\<close> bytes the counter sees one occurrence of \<open>0x80\<close>, not eight.
\<close>

theorem count_fails_signed_char:
  "strzl_naive_count_char True \<lparr>hay_ptr = 0, hay_bytes = replicate 8 0x80\<rparr> 0x80 = Some 1
   \<and> length (filter (\<lambda>b. b = 0x80) (replicate 8 (0x80 :: byte))) = 8"
  by code_simp

text \<open>
  C5 (back-end agreement) fails for anomaly offsets of 2 and more: the vector paths
  verify every candidate of a stride, the scalar path skips the last \<open>anomaly_offset\<close>
  candidates. In the 22-byte haystack \<open>xxxxxxxxxxxxxxxneedley\<close> with the needle
  \<open>needle\<close> at anomaly offset 2, NEON returns 15 while the scalar and the AVX2 path
  return the miss sentinel 22, whatever the signedness of \<^verbatim>\<open>char\<close>.
\<close>

theorem backends_disagree_anomaly_offset:
  "strzl_naive_find_substr True
      \<lparr>hay_ptr = 0, hay_bytes = replicate 15 0x78 @ [0x6E, 0x65, 0x65, 0x64, 0x6C, 0x65, 0x79]\<rparr>
      \<lparr>ndl_bytes = [0x6E, 0x65, 0x65, 0x64, 0x6C, 0x65], anomaly_offset = 2\<rparr> = Some 22
   \<and> strzl_avx2_find_substr True
      \<lparr>hay_ptr = 0, hay_bytes = replicate 15 0x78 @ [0x6E, 0x65, 0x65, 0x64, 0x6C, 0x65, 0x79]\<rparr>
      \<lparr>ndl_bytes = [0x6E, 0x65, 0x65, 0x64, 0x6C, 0x65], anomaly_offset = 2\<rparr> = Some 22
   \<and> strzl_neon_find_substr True
      \<lparr>hay_ptr = 0, hay_bytes = replicate 15 0x78 @ [0x6E, 0x65, 0x65, 0x64, 0x6C, 0x65, 0x79]\<rparr>
      \<lparr>ndl_bytes = [0x6E, 0x65, 0x65, 0x64, 0x6C, 0x65], anomaly_offset = 2\<rparr> = Some 15
   \<and> strzl_naive_find_substr False
      \<lparr>hay_ptr = 0, hay_bytes = replicate 15 0x78 @ [0x6E, 0x65, 0x65, 0x64, 0x6C, 0x65, 0x79]\<rparr>
      \<lparr>ndl_bytes = [0x6E, 0x65, 0x65, 0x64, 0x6C, 0x65], anomaly_offset = 2\<rparr> = Some 22
   \<and> strzl_neon_find_substr False
      \<lparr>hay_ptr = 0, hay_bytes = replicate 15 0x78 @ [0x6E, 0x65, 0x65, 0x64, 0x6C, 0x65, 0x79]\<rparr>
      \<lparr>ndl_bytes = [0x6E, 0x65, 0x65, 0x64, 0x6C, 0x65], anomaly_offset = 2\<rparr> = Some 15"
  by code_simp

end
